theory Spec2Isabelle
  imports Complex_Main "HOL-Library.Log_Nat"
begin

section \<open>Python numbers\<close>

text \<open>
  The pricing engine of \<^verbatim>\<open>app-backend/app.py\<close> computes on Python floats, which are
  IEEE-754 binary64 numbers.  A float is modelled by its exact value: a rational for a
  finite number, or one of the three special values.  The two zeros are one value, as
  they are under Python's \<^verbatim>\<open>==\<close>; no comparison, error or magnitude in the engine
  depends on the sign of a zero.

  Every arithmetic operation of the source is the exact operation followed by rounding
  to the nearest binary64 number, ties to even (\<open>rnd\<close>), with overflow to an infinity.
  Python integers are unbounded (\<open>int\<close>); where the source mixes an integer with a float,
  Python converts the integer with the same rounding, and raises OverflowError when the
  integer is too large.
\<close>

datatype pyfloat = Fin rat | PInf | NInf | NaN

datatype py_error =
    ValueError string
  | TypeError string
  | OverflowError string
  | ZeroDivisionError string
  | AttributeError string
  | KeyError string

definition bnd :: "'e + 'a \<Rightarrow> ('a \<Rightarrow> 'e + 'b) \<Rightarrow> 'e + 'b" where
  "bnd m f = (case m of Inl e \<Rightarrow> Inl e | Inr x \<Rightarrow> f x)"

definition pow2 :: "int \<Rightarrow> rat" where
  "pow2 e = (if 0 \<le> e then 2 ^ nat e else 1 / 2 ^ nat (- e))"

text \<open>The binary exponent of a positive rational: \<open>pow2 (flog2 x) \<le> x < pow2 (flog2 x + 1)\<close>.\<close>

definition flog2 :: "rat \<Rightarrow> int" where
  "flog2 x = (let (p, q) = quotient_of x; d = bitlen p - bitlen q
              in if pow2 d \<le> x then d else d - 1)"

definition round_half_even :: "rat \<Rightarrow> int" where
  "round_half_even x =
     (let f = \<lfloor>x\<rfloor>; r = x - of_int f
      in if r < 1 / 2 then f
         else if 1 / 2 < r then f + 1
         else if even f then f else f + 1)"

text \<open>
  Rounding to binary64: 53 significant bits, the exponent not below \<open>-1022\<close> (so the
  subnormal numbers are multiples of \<open>pow2 (-1074)\<close>), and a result of magnitude
  \<open>pow2 1024\<close> or more is an infinity.  For a positive \<open>x\<close>, \<open>bexp x\<close> is the exponent
  of its binade, \<open>ulp x\<close> the distance between neighbouring floats there, and \<open>rpos x\<close>
  the multiple of \<open>ulp x\<close> nearest to \<open>x\<close>.
\<close>

definition bexp :: "rat \<Rightarrow> int" where
  "bexp x = max (flog2 x) (- 1022)"

definition ulp :: "rat \<Rightarrow> rat" where
  "ulp x = pow2 (bexp x - 52)"

definition rpos :: "rat \<Rightarrow> rat" where
  "rpos x = of_int (round_half_even (x / ulp x)) * ulp x"

definition rnd :: "rat \<Rightarrow> pyfloat" where
  "rnd x =
     (if x = 0 then Fin 0
      else let y = rpos \<bar>x\<bar>
           in if pow2 1024 \<le> y then (if 0 < x then PInf else NInf)
              else Fin (sgn x * y))"

definition fneg :: "pyfloat \<Rightarrow> pyfloat" where
  "fneg a = (case a of Fin x \<Rightarrow> Fin (- x) | PInf \<Rightarrow> NInf | NInf \<Rightarrow> PInf | NaN \<Rightarrow> NaN)"

fun fadd :: "pyfloat \<Rightarrow> pyfloat \<Rightarrow> pyfloat" where
  "fadd NaN _ = NaN"
| "fadd _ NaN = NaN"
| "fadd PInf NInf = NaN"
| "fadd NInf PInf = NaN"
| "fadd PInf _ = PInf"
| "fadd _ PInf = PInf"
| "fadd NInf _ = NInf"
| "fadd _ NInf = NInf"
| "fadd (Fin x) (Fin y) = rnd (x + y)"

definition fsub :: "pyfloat \<Rightarrow> pyfloat \<Rightarrow> pyfloat" where
  "fsub a b = fadd a (fneg b)"

text \<open>The sign of a float: \<open>1\<close>, \<open>0\<close> or \<open>-1\<close>; a NaN has none.\<close>

fun fsgn :: "pyfloat \<Rightarrow> int" where
  "fsgn (Fin x) = (if 0 < x then 1 else if x < 0 then - 1 else 0)"
| "fsgn PInf = 1"
| "fsgn NInf = - 1"
| "fsgn NaN = 0"

definition inf_of_sign :: "int \<Rightarrow> pyfloat" where
  "inf_of_sign s = (if s = 0 then NaN else if 0 < s then PInf else NInf)"

fun fmul :: "pyfloat \<Rightarrow> pyfloat \<Rightarrow> pyfloat" where
  "fmul NaN _ = NaN"
| "fmul _ NaN = NaN"
| "fmul (Fin x) (Fin y) = rnd (x * y)"
| "fmul a b = inf_of_sign (fsgn a * fsgn b)"

text \<open>
  True division.  Python tests the divisor first and raises ZeroDivisionError for any
  zero divisor, whatever the dividend.
\<close>

fun fdiv :: "pyfloat \<Rightarrow> pyfloat \<Rightarrow> py_error + pyfloat" where
  "fdiv a (Fin y) =
     (if y = 0 then Inl (ZeroDivisionError ''float division by zero'')
      else case a of
             Fin x \<Rightarrow> Inr (rnd (x / y))
           | NaN \<Rightarrow> Inr NaN
           | _ \<Rightarrow> Inr (inf_of_sign (fsgn a * fsgn (Fin y))))"
| "fdiv NaN _ = Inr NaN"
| "fdiv _ NaN = Inr NaN"
| "fdiv (Fin x) _ = Inr (Fin 0)"
| "fdiv _ _ = Inr NaN"

text \<open>Comparisons; every comparison with a NaN is false.\<close>

fun flt :: "pyfloat \<Rightarrow> pyfloat \<Rightarrow> bool" where
  "flt NaN _ = False"
| "flt _ NaN = False"
| "flt (Fin x) (Fin y) = (x < y)"
| "flt NInf b = (b \<noteq> NInf)"
| "flt a PInf = (a \<noteq> PInf)"
| "flt _ _ = False"

definition fgt :: "pyfloat \<Rightarrow> pyfloat \<Rightarrow> bool" where
  "fgt a b = flt b a"

definition fle :: "pyfloat \<Rightarrow> pyfloat \<Rightarrow> bool" where
  "fle a b = (flt a b \<or> (a = b \<and> a \<noteq> NaN))"

text \<open>\<^verbatim>\<open>not (a < 0)\<close>: what the validators require of a field.  A NaN satisfies it.\<close>

definition nonneg :: "pyfloat \<Rightarrow> bool" where
  "nonneg a = (\<not> flt a (Fin 0))"

text \<open>A finite float of magnitude at most \<open>pow2 k\<close>.\<close>

definition mag_le :: "int \<Rightarrow> pyfloat \<Rightarrow> bool" where
  "mag_le k a = (case a of Fin x \<Rightarrow> \<bar>x\<bar> \<le> pow2 k | _ \<Rightarrow> False)"

text \<open>\<^verbatim>\<open>min(a, b)\<close> of Python: \<^verbatim>\<open>b\<close> when \<^verbatim>\<open>b < a\<close>, otherwise \<^verbatim>\<open>a\<close>.\<close>

definition py_min :: "pyfloat \<Rightarrow> pyfloat \<Rightarrow> pyfloat" where
  "py_min a b = (if flt b a then b else a)"

text \<open>Conversion of a Python integer to a float, as the mixed operations do.\<close>

definition float_of_int :: "int \<Rightarrow> py_error + pyfloat" where
  "float_of_int n =
     (case rnd (of_int n) of
        Fin y \<Rightarrow> Inr (Fin y)
      | _ \<Rightarrow> Inl (OverflowError ''int too large to convert to float''))"

text \<open>A float literal of the source denotes the nearest binary64 number.\<close>

definition lit :: "rat \<Rightarrow> pyfloat" where
  "lit x = rnd x"

text \<open>\<^verbatim>\<open>math.ceil\<close>: an integer, or an error on a NaN or an infinity.\<close>

fun math_ceil :: "pyfloat \<Rightarrow> py_error + int" where
  "math_ceil (Fin x) = Inr \<lceil>x\<rceil>"
| "math_ceil NaN = Inl (ValueError ''cannot convert float NaN to integer'')"
| "math_ceil _ = Inl (OverflowError ''cannot convert float infinity to integer'')"

text \<open>
  \<^verbatim>\<open>round(x, ndigits)\<close> on a float: the exact value of \<^verbatim>\<open>x\<close> is rounded to
  \<^verbatim>\<open>ndigits\<close> decimals, ties to even, and the decimal result is converted back to the
  nearest binary64 number.  A NaN or an infinity rounds to itself.
\<close>

definition py_round :: "pyfloat \<Rightarrow> nat \<Rightarrow> py_error + pyfloat" where
  "py_round a nd =
     (case a of
        Fin x \<Rightarrow>
          (case rnd (of_int (round_half_even (x * 10 ^ nd)) / 10 ^ nd) of
             Fin y \<Rightarrow> Inr (Fin y)
           | _ \<Rightarrow> Inl (OverflowError ''rounded value too large to represent''))
      | _ \<Rightarrow> Inr a)"

section \<open>Request payloads\<close>

text \<open>
  \<^verbatim>\<open>request.json\<close> is whatever Python's JSON decoder returns: \<^verbatim>\<open>None\<close>, a bool, an
  unbounded integer, a float (the decoder also reads \<^verbatim>\<open>NaN\<close> and \<^verbatim>\<open>Infinity\<close>), a string,
  a list or a dict.  A dict is an association list read with \<open>map_of\<close>.  A string is a
  list of 8-bit characters, standing for the code points below 256; strings holding a
  code point above 255 are not modelled.
\<close>

datatype json =
    JNull
  | JBool bool
  | JInt int
  | JFloat pyfloat
  | JStr string
  | JList "json list"
  | JDict "(string \<times> json) list"

type_synonym pydict = "(string \<times> json) list"

text \<open>\<^verbatim>\<open>d.get(k, default)\<close>\<close>

definition dict_get :: "pydict \<Rightarrow> string \<Rightarrow> json \<Rightarrow> json" where
  "dict_get d k dflt = (case map_of d k of None \<Rightarrow> dflt | Some v \<Rightarrow> v)"

text \<open>The truth value of a payload, for \<^verbatim>\<open>if not data\<close>.\<close>

fun truthy :: "json \<Rightarrow> bool" where
  "truthy JNull = False"
| "truthy (JBool b) = b"
| "truthy (JInt n) = (n \<noteq> 0)"
| "truthy (JFloat f) = (f \<noteq> Fin 0)"
| "truthy (JStr s) = (s \<noteq> [])"
| "truthy (JList xs) = (xs \<noteq> [])"
| "truthy (JDict d) = (d \<noteq> [])"

subsection \<open>\<^verbatim>\<open>float(s)\<close> on a string\<close>

text \<open>
  The blanks that \<^verbatim>\<open>float\<close> strips from both ends of a string: the ASCII blanks
  \<^verbatim>\<open>0x09\<close> to \<^verbatim>\<open>0x0D\<close> and \<^verbatim>\<open>0x20\<close>, and, of the code points from 128 to 255, the
  two Unicode blanks \<^verbatim>\<open>0x85\<close> and \<^verbatim>\<open>0xA0\<close>, which it first replaces by spaces.  The
  separators \<^verbatim>\<open>0x1C\<close> to \<^verbatim>\<open>0x1F\<close> are not stripped.
\<close>

definition is_space :: "char \<Rightarrow> bool" where
  "is_space c = ((of_char c :: nat) \<in> {9, 10, 11, 12, 13, 32, 133, 160})"

definition is_digit :: "char \<Rightarrow> bool" where
  "is_digit c = (48 \<le> (of_char c :: nat) \<and> (of_char c :: nat) \<le> 57)"

definition digit_val :: "char \<Rightarrow> nat" where
  "digit_val c = of_char c - 48"

definition digits_val :: "string \<Rightarrow> nat" where
  "digits_val ds = foldl (\<lambda>a c. 10 * a + digit_val c) 0 ds"

definition lower :: "char \<Rightarrow> char" where
  "lower c = (if 65 \<le> (of_char c :: nat) \<and> (of_char c :: nat) \<le> 90
              then char_of (of_char c + (32 :: nat)) else c)"

definition strip :: "string \<Rightarrow> string" where
  "strip s = rev (dropWhile is_space (rev (dropWhile is_space s)))"

text \<open>
  An underscore is accepted between two digits only; the first argument is the
  previous character.
\<close>

fun drop_underscores :: "char \<Rightarrow> string \<Rightarrow> string option" where
  "drop_underscores prev [] = (if prev = CHR ''_'' then None else Some [])"
| "drop_underscores prev (c # cs) =
     (if c = CHR ''_'' then
        (if is_digit prev then drop_underscores c cs else None)
      else if prev = CHR ''_'' \<and> \<not> is_digit c then None
      else map_option ((#) c) (drop_underscores c cs))"

definition pow10 :: "int \<Rightarrow> rat" where
  "pow10 e = (if 0 \<le> e then 10 ^ nat e else 1 / 10 ^ nat (- e))"

text \<open>The exponent part: empty, or \<^verbatim>\<open>e\<close> or \<^verbatim>\<open>E\<close>, an optional sign and digits.\<close>

definition parse_exponent :: "string \<Rightarrow> int option" where
  "parse_exponent s =
     (case s of
        [] \<Rightarrow> Some 0
      | c # r \<Rightarrow>
          if c = CHR ''e'' \<or> c = CHR ''E'' then
            (let neg = (r \<noteq> [] \<and> hd r = CHR ''-'');
                 ds = (if r \<noteq> [] \<and> (hd r = CHR ''-'' \<or> hd r = CHR ''+'') then tl r else r)
             in if ds \<noteq> [] \<and> list_all is_digit ds
                then Some (if neg then - int (digits_val ds) else int (digits_val ds))
                else None)
          else None)"

text \<open>An unsigned value: \<^verbatim>\<open>inf\<close>, \<^verbatim>\<open>infinity\<close>, \<^verbatim>\<open>nan\<close> in any case, or a decimal number.\<close>

definition parse_abs :: "string \<Rightarrow> pyfloat option" where
  "parse_abs s =
     (if map lower s = ''inf'' \<or> map lower s = ''infinity'' then Some PInf
      else if map lower s = ''nan'' then Some NaN
      else
        let ip = takeWhile is_digit s;
            r1 = dropWhile is_digit s;
            dot = (r1 \<noteq> [] \<and> hd r1 = CHR ''.'');
            fp = (if dot then takeWhile is_digit (tl r1) else []);
            r2 = (if dot then dropWhile is_digit (tl r1) else r1)
        in if ip = [] \<and> fp = [] then None
           else case parse_exponent r2 of
                  None \<Rightarrow> None
                | Some ex \<Rightarrow>
                    Some (rnd (of_nat (digits_val (ip @ fp)) * pow10 (ex - int (length fp)))))"

definition float_of_string :: "string \<Rightarrow> pyfloat option" where
  "float_of_string s0 =
     (case drop_underscores (CHR 0x00) (strip s0) of
        None \<Rightarrow> None
      | Some s \<Rightarrow>
          if s \<noteq> [] \<and> hd s = CHR ''-'' then map_option fneg (parse_abs (tl s))
          else if s \<noteq> [] \<and> hd s = CHR ''+'' then parse_abs (tl s)
          else parse_abs s)"

text \<open>A name between single quotes, as the interpreter's messages print it.\<close>

definition quoted :: "string \<Rightarrow> string" where
  "quoted s = [CHR 0x27] @ s @ [CHR 0x27]"

fun type_name :: "json \<Rightarrow> string" where
  "type_name JNull = ''NoneType''"
| "type_name (JBool _) = ''bool''"
| "type_name (JInt _) = ''int''"
| "type_name (JFloat _) = ''float''"
| "type_name (JStr _) = ''str''"
| "type_name (JList _) = ''list''"
| "type_name (JDict _) = ''dict''"

text \<open>
  \<^verbatim>\<open>float(v)\<close> on a decoded JSON value.  (The message for a string shows the string
  between quotes; the escapes of \<^verbatim>\<open>repr\<close> are not modelled.)
\<close>

fun py_float :: "json \<Rightarrow> py_error + pyfloat" where
  "py_float (JBool b) = Inr (Fin (if b then 1 else 0))"
| "py_float (JInt n) = float_of_int n"
| "py_float (JFloat f) = Inr f"
| "py_float (JStr s) =
     (case float_of_string s of
        None \<Rightarrow> Inl (ValueError (''could not convert string to float: '' @ quoted s))
      | Some f \<Rightarrow> Inr f)"
| "py_float v =
     Inl (TypeError (''float() argument must be a string or a real number, not ''
                      @ quoted (type_name v)))"

section \<open>Input validation\<close>

text \<open>\<^verbatim>\<open>isinstance(value, (int, float, str))\<close>; a bool is an int.\<close>

fun is_int_float_str :: "json \<Rightarrow> bool" where
  "is_int_float_str (JBool _) = True"
| "is_int_float_str (JInt _) = True"
| "is_int_float_str (JFloat _) = True"
| "is_int_float_str (JStr _) = True"
| "is_int_float_str _ = False"

text \<open>
  The loop over \<^verbatim>\<open>required_fields\<close>, the same in both validators.  The
  \<^verbatim>\<open>raise ValueError\<close> for a negative value sits inside the \<^verbatim>\<open>try\<close>, so the handler
  \<^verbatim>\<open>except (ValueError, TypeError)\<close> replaces it; any other exception of \<^verbatim>\<open>float\<close>
  leaves the validator as it is.
\<close>

fun validate_fields :: "string list \<Rightarrow> pydict \<Rightarrow> py_error + bool" where
  "validate_fields [] data = Inr True"
| "validate_fields (field # rest) data =
     (case map_of data field of
        None \<Rightarrow> Inl (ValueError (''Missing required field: '' @ field))
      | Some v \<Rightarrow>
          if \<not> is_int_float_str v then Inl (ValueError (''Invalid type for '' @ field))
          else case py_float v of
                 Inl (ValueError _) \<Rightarrow> Inl (ValueError (''Invalid numeric value for '' @ field))
               | Inl (TypeError _) \<Rightarrow> Inl (ValueError (''Invalid numeric value for '' @ field))
               | Inl e \<Rightarrow> Inl e
               | Inr float_val \<Rightarrow>
                   if flt float_val (Fin 0)
                   then Inl (ValueError (''Invalid numeric value for '' @ field))
                   else validate_fields rest data)"

definition validate_supplement_inputs :: "pydict \<Rightarrow> py_error + bool" where
  "validate_supplement_inputs data =
     validate_fields [''purchasePrice'', ''fxRate'', ''weightGrams'', ''count'', ''dailyDose''] data"

definition validate_device_inputs :: "pydict \<Rightarrow> py_error + bool" where
  "validate_device_inputs data =
     validate_fields
       [''purchasePrice'', ''fxRate'', ''lengthCm'', ''widthCm'', ''heightCm'', ''weightKg''] data"

section \<open>The multiplier table\<close>

definition MULTIPLIERS :: "(string \<times> (string \<times> pyfloat) list) list" where
  "MULTIPLIERS =
     [(''maleSupport'', [(''Yes'', lit (125 / 100)), (''No'', Fin 1)]),
      (''productShape'',
         [(''Capsules/Tablets'', Fin 1), (''Softgels/Chews'', Fin 1), (''Powder/Creamy'', Fin 1),
          (''Gummies'', lit (11 / 10)), (''Liquid'', lit (105 / 100)), (''Injection'', lit (12 / 10))]),
      (''bottleSize'',
         [(''Small'', lit (9 / 10)), (''Normal'', Fin 1), (''Big'', lit (11 / 10)),
          (''Massive'', lit (12 / 10))]),
      (''packingMaterial'', [(''Plastic'', Fin 1), (''Glass'', lit (112 / 100)), (''Paper'', lit (106 / 100))]),
      (''importOrigin'', [(''US'', Fin 1), (''UK'', lit (125 / 100)), (''EU'', lit (11 / 10))])]"

text \<open>
  \<^verbatim>\<open>MULTIPLIERS[name].get(inputs.get(field), 1)\<close>.  The key is any decoded value or
  \<^verbatim>\<open>None\<close>; the keys of the table are strings, so only a string can hit.  A list or a
  dict is unhashable, and \<^verbatim>\<open>dict.get\<close> raises TypeError on it.
\<close>

fun table_get :: "(string \<times> pyfloat) list \<Rightarrow> json option \<Rightarrow> py_error + pyfloat" where
  "table_get t (Some (JStr s)) = Inr (case map_of t s of None \<Rightarrow> Fin 1 | Some m \<Rightarrow> m)"
| "table_get t (Some (JList _)) = Inl (TypeError (''unhashable type: '' @ quoted ''list''))"
| "table_get t (Some (JDict _)) = Inl (TypeError (''unhashable type: '' @ quoted ''dict''))"
| "table_get t _ = Inr (Fin 1)"

definition multiplier :: "string \<Rightarrow> json option \<Rightarrow> py_error + pyfloat" where
  "multiplier name key =
     (case map_of MULTIPLIERS name of
        None \<Rightarrow> Inl (KeyError name)
      | Some t \<Rightarrow> table_get t key)"

section \<open>The pricing formulas\<close>

record breakdown =
  baseCost :: pyfloat
  totalCost :: pyfloat
  finalPrice :: int
  profit :: pyfloat
  margin :: pyfloat

text \<open>
  The \<^verbatim>\<open>return\<close> expression of both formulas.  \<^verbatim>\<open>final_price\<close> is an integer;
  \<^verbatim>\<open>round\<close> leaves it as it is, and the subtraction and the division convert it to a
  float first.
\<close>

definition make_breakdown :: "pyfloat \<Rightarrow> pyfloat \<Rightarrow> int \<Rightarrow> py_error + breakdown" where
  "make_breakdown base total_cost final_price =
     bnd (py_round base 2) (\<lambda>bc.
     bnd (py_round total_cost 0) (\<lambda>tc.
     bnd (float_of_int final_price) (\<lambda>fp.
     bnd (py_round (fsub fp total_cost) 0) (\<lambda>pr.
     bnd (fdiv (fsub fp total_cost) fp) (\<lambda>ratio.
     bnd (py_round (fmul ratio (Fin 100)) 1) (\<lambda>mg.
     Inr \<lparr>baseCost = bc, totalCost = tc, finalPrice = final_price, profit = pr, margin = mg\<rparr>))))))"

text \<open>\<^verbatim>\<open>math.ceil(final_price_raw / 50) * 50\<close>\<close>

definition round_up_50 :: "pyfloat \<Rightarrow> py_error + int" where
  "round_up_50 final_price_raw =
     bnd (fdiv final_price_raw (Fin 50)) (\<lambda>q.
     bnd (math_ceil q) (\<lambda>c. Inr (c * 50)))"

text \<open>
  \<^verbatim>\<open>final_price_raw = total_cost * (1 + margin_percent)\<close> and the rest of both
  formulas, which differ in the margin only.
\<close>

definition final_price_raw :: "rat \<Rightarrow> pyfloat \<Rightarrow> pyfloat" where
  "final_price_raw margin_percent total_cost = fmul total_cost (fadd (Fin 1) (lit margin_percent))"

definition price_breakdown :: "rat \<Rightarrow> pyfloat \<Rightarrow> pyfloat \<Rightarrow> py_error + breakdown" where
  "price_breakdown margin_percent base total_cost =
     bnd (round_up_50 (final_price_raw margin_percent total_cost)) (\<lambda>final_price.
     make_breakdown base total_cost final_price)"

text \<open>Step 5 of the supplement formula: the days and months of supply, the dosage adjustment.\<close>

definition days_supply :: "pyfloat \<Rightarrow> pyfloat \<Rightarrow> py_error + pyfloat" where
  "days_supply count dailyDose =
     (if fgt dailyDose (Fin 0) then fdiv count dailyDose else Inr (Fin 30))"

definition months_supply :: "pyfloat \<Rightarrow> pyfloat \<Rightarrow> py_error + pyfloat" where
  "months_supply count dailyDose =
     bnd (days_supply count dailyDose) (\<lambda>days. fdiv days (Fin 30))"

definition dosage_adjustment :: "pyfloat \<Rightarrow> pyfloat \<Rightarrow> py_error + pyfloat" where
  "dosage_adjustment count dailyDose =
     bnd (months_supply count dailyDose) (\<lambda>months.
     bnd (if fgt months (Fin 0) then fdiv (Fin 3) months else Inr (Fin 3)) (\<lambda>dose_factor.
     Inr (fmul (Fin 50) (fsub (Fin 3) (py_min (Fin 3) dose_factor)))))"

text \<open>Steps 2 to 6: the unrounded \<^verbatim>\<open>total_cost\<close>.\<close>

definition supplement_total_cost ::
  "pyfloat \<Rightarrow> pyfloat \<Rightarrow> pyfloat \<Rightarrow> pyfloat \<Rightarrow> pyfloat \<Rightarrow> pyfloat \<Rightarrow> py_error + pyfloat" where
  "supplement_total_cost purchasePrice fxRate weightGrams count dailyDose xfactor =
     (let base_product_egp = fmul (fmul purchasePrice xfactor) fxRate in
      bnd (fdiv (fmul (fmul weightGrams (Fin 32)) fxRate) (Fin 1000)) (\<lambda>weight_cost.
      let adjusted_cost = fadd (Fin 380) (fmul (lit (14 / 10)) (fadd base_product_egp weight_cost)) in
      bnd (dosage_adjustment count dailyDose) (\<lambda>dosage_adj.
      Inr (fadd adjusted_cost dosage_adj))))"

text \<open>
  The first half of \<^verbatim>\<open>calculate_supplement_price\<close>: the five conversions, the five
  lookups, and the two costs the breakdown is made of, \<^verbatim>\<open>purchasePrice * fxRate\<close> and
  \<^verbatim>\<open>total_cost\<close>.
\<close>

definition supplement_costs :: "pydict \<Rightarrow> py_error + pyfloat \<times> pyfloat" where
  "supplement_costs inputs =
     bnd (py_float (dict_get inputs ''purchasePrice'' (JInt 0))) (\<lambda>purchasePrice.
     bnd (py_float (dict_get inputs ''fxRate'' (JInt 50))) (\<lambda>fxRate.
     bnd (py_float (dict_get inputs ''weightGrams'' (JInt 0))) (\<lambda>weightGrams.
     bnd (py_float (dict_get inputs ''count'' (JInt 0))) (\<lambda>count.
     bnd (py_float (dict_get inputs ''dailyDose'' (JInt 1))) (\<lambda>dailyDose.
     bnd (multiplier ''productShape'' (map_of inputs ''productShape'')) (\<lambda>shapeMult.
     bnd (multiplier ''packingMaterial'' (map_of inputs ''packingMaterial'')) (\<lambda>packMult.
     bnd (multiplier ''bottleSize'' (map_of inputs ''bottleSize'')) (\<lambda>sizeMult.
     bnd (multiplier ''maleSupport'' (map_of inputs ''isMaleSupport'')) (\<lambda>maleMult.
     bnd (multiplier ''importOrigin'' (map_of inputs ''importFrom'')) (\<lambda>originMult.
     let xfactor = fmul (fmul (fmul (fmul shapeMult packMult) sizeMult) maleMult) originMult in
     bnd (supplement_total_cost purchasePrice fxRate weightGrams count dailyDose xfactor) (\<lambda>total_cost.
     Inr (fmul purchasePrice fxRate, total_cost))))))))))))"

definition calculate_supplement_price :: "pydict \<Rightarrow> py_error + breakdown" where
  "calculate_supplement_price inputs =
     bnd (supplement_costs inputs) (\<lambda>(base, total_cost).
     price_breakdown (37 / 100) base total_cost)"

definition device_total_cost ::
  "pyfloat \<Rightarrow> pyfloat \<Rightarrow> pyfloat \<Rightarrow> pyfloat \<Rightarrow> pyfloat \<Rightarrow> pyfloat \<Rightarrow> pyfloat \<Rightarrow> py_error + pyfloat" where
  "device_total_cost base_egp l w h weight maleMult originMult =
     (let vol = fmul (fmul l w) h in
      bnd (fdiv vol (Fin 4000)) (\<lambda>vq.
      let dim_factor = fadd (fadd (Fin 1) vq) (fmul weight (Fin 2)) in
      Inr (fmul (fmul (fmul base_egp dim_factor) maleMult) originMult)))"

definition device_costs :: "pydict \<Rightarrow> py_error + pyfloat \<times> pyfloat" where
  "device_costs inputs =
     bnd (py_float (dict_get inputs ''purchasePrice'' (JInt 0))) (\<lambda>purchasePrice.
     bnd (py_float (dict_get inputs ''fxRate'' (JInt 50))) (\<lambda>fxRate.
     bnd (py_float (dict_get inputs ''lengthCm'' (JInt 0))) (\<lambda>l.
     bnd (py_float (dict_get inputs ''widthCm'' (JInt 0))) (\<lambda>w.
     bnd (py_float (dict_get inputs ''heightCm'' (JInt 0))) (\<lambda>h.
     bnd (py_float (dict_get inputs ''weightKg'' (JInt 0))) (\<lambda>weight.
     bnd (multiplier ''maleSupport'' (map_of inputs ''isMaleSupport'')) (\<lambda>maleMult.
     bnd (multiplier ''importOrigin'' (map_of inputs ''importFrom'')) (\<lambda>originMult.
     let base_egp = fmul purchasePrice fxRate in
     bnd (device_total_cost base_egp l w h weight maleMult originMult) (\<lambda>total_cost.
     Inr (base_egp, total_cost))))))))))"

definition calculate_device_price :: "pydict \<Rightarrow> py_error + breakdown" where
  "calculate_device_price inputs =
     bnd (device_costs inputs) (\<lambda>(base, total_cost).
     price_breakdown (15 / 100) base total_cost)"

section \<open>The calculate operation\<close>

text \<open>
  \<^verbatim>\<open>handle_calculate\<close> reads the payload, answers with a body and a status code, and
  appends a row to the calculation table on success.  The validators and the formulas
  it calls are parameters of \<open>handle_calculate_with\<close>, so that what the handler does
  before calling them can be stated for any callee.  An exception that leaves the
  handler is \<open>Inl\<close>.
\<close>

record calculation =
  category :: string
  inputs :: pydict
  results :: breakdown

datatype body = ErrorBody string | ErrorMessageBody string string | ResultBody breakdown

fun str_of_error :: "py_error \<Rightarrow> string" where
  "str_of_error (ValueError m) = m"
| "str_of_error (TypeError m) = m"
| "str_of_error (OverflowError m) = m"
| "str_of_error (ZeroDivisionError m) = m"
| "str_of_error (AttributeError m) = m"
| "str_of_error (KeyError m) = m"

fun is_ValueError :: "py_error \<Rightarrow> bool" where
  "is_ValueError (ValueError _) = True"
| "is_ValueError _ = False"

definition invalid_category_message :: string where
  "invalid_category_message =
     ''Invalid category. Must be '' @ quoted ''supplement'' @ '' or '' @ quoted ''device''"

text \<open>
  The \<^verbatim>\<open>try\<close> block, once the category is known: validate, compute, store the row and
  answer 200.  A ValueError is answered with 400; any other exception rolls the session
  back and is answered with 500.
\<close>

definition calculate_and_store ::
  "(pydict \<Rightarrow> py_error + bool) \<Rightarrow> (pydict \<Rightarrow> py_error + breakdown) \<Rightarrow>
   bool \<Rightarrow> calculation list \<Rightarrow> string \<Rightarrow> pydict \<Rightarrow> calculation list \<times> body \<times> nat" where
  "calculate_and_store validate calculate debug db cat d =
     (case bnd (validate d) (\<lambda>_. calculate d) of
        Inr res \<Rightarrow>
          (db @ [\<lparr>category = cat, inputs = d, results = res\<rparr>], ResultBody res, 200)
      | Inl e \<Rightarrow>
          if is_ValueError e
          then (db, ErrorMessageBody ''Validation failed'' (str_of_error e), 400)
          else (db, ErrorMessageBody ''Calculation failed''
                      (if debug then str_of_error e else ''Internal server error''), 500))"

definition handle_calculate_with ::
  "(pydict \<Rightarrow> py_error + bool) \<Rightarrow> (pydict \<Rightarrow> py_error + bool) \<Rightarrow>
   (pydict \<Rightarrow> py_error + breakdown) \<Rightarrow> (pydict \<Rightarrow> py_error + breakdown) \<Rightarrow>
   bool \<Rightarrow> calculation list \<Rightarrow> json \<Rightarrow> py_error + (calculation list \<times> body \<times> nat)" where
  "handle_calculate_with validate_s validate_d calculate_s calculate_d debug db data =
     (if \<not> truthy data then Inr (db, ErrorBody ''No input data provided'', 400)
      else case data of
        JDict d \<Rightarrow>
          (let cat = dict_get d ''category'' (JStr ''supplement'') in
           if cat \<noteq> JStr ''supplement'' \<and> cat \<noteq> JStr ''device''
           then Inr (db, ErrorBody invalid_category_message, 400)
           else if cat = JStr ''supplement''
           then Inr (calculate_and_store validate_s calculate_s debug db ''supplement'' d)
           else Inr (calculate_and_store validate_d calculate_d debug db ''device'' d))
      | _ \<Rightarrow> Inl (AttributeError (quoted (type_name data) @ '' object has no attribute ''
                                  @ quoted ''get'')))"

definition handle_calculate ::
  "bool \<Rightarrow> calculation list \<Rightarrow> json \<Rightarrow> py_error + (calculation list \<times> body \<times> nat)" where
  "handle_calculate =
     handle_calculate_with validate_supplement_inputs validate_device_inputs
       calculate_supplement_price calculate_device_price"

section \<open>Categorical attributes\<close>

text \<open>
  The categorical fields the formulas read, each with the table it is looked up in
  (lines 187 to 191 and 253 to 254 of the source).
\<close>

definition supplement_categorical :: "(string \<times> string) list" where
  "supplement_categorical =
     [(''productShape'', ''productShape''), (''packingMaterial'', ''packingMaterial''),
      (''bottleSize'', ''bottleSize''), (''isMaleSupport'', ''maleSupport''),
      (''importFrom'', ''importOrigin'')]"

definition device_categorical :: "(string \<times> string) list" where
  "device_categorical = [(''isMaleSupport'', ''maleSupport''), (''importFrom'', ''importOrigin'')]"

text \<open>A decoded value is hashable unless it is a list or a dict.\<close>

fun hashable :: "json \<Rightarrow> bool" where
  "hashable (JList _) = False"
| "hashable (JDict _) = False"
| "hashable _ = True"

text \<open>Every categorical field that is present holds a hashable value.\<close>

definition hashable_fields :: "(string \<times> string) list \<Rightarrow> pydict \<Rightarrow> bool" where
  "hashable_fields cats d =
     list_all (\<lambda>(field, name). case map_of d field of None \<Rightarrow> True | Some v \<Rightarrow> hashable v) cats"

text \<open>Whether a value is a key of the table called \<open>name\<close>.\<close>

fun is_key :: "string \<Rightarrow> json \<Rightarrow> bool" where
  "is_key name (JStr s) =
     (case map_of MULTIPLIERS name of None \<Rightarrow> False | Some t \<Rightarrow> map_of t s \<noteq> None)"
| "is_key name _ = False"

text \<open>The payload with one field left out.\<close>

definition omit :: "string \<Rightarrow> pydict \<Rightarrow> pydict" where
  "omit field d = filter (\<lambda>kv. fst kv \<noteq> field) d"

section \<open>The two scenarios of the specification\<close>

definition supplement_example :: pydict where
  "supplement_example =
     [(''purchasePrice'', JInt 10), (''fxRate'', JInt 50), (''weightGrams'', JInt 30),
      (''count'', JInt 60), (''dailyDose'', JInt 2),
      (''productShape'', JStr ''Capsules/Tablets''), (''packingMaterial'', JStr ''Plastic''),
      (''bottleSize'', JStr ''Normal''), (''isMaleSupport'', JStr ''No''),
      (''importFrom'', JStr ''US'')]"

definition device_example :: pydict where
  "device_example =
     [(''purchasePrice'', JInt 100), (''fxRate'', JInt 50), (''lengthCm'', JInt 20),
      (''widthCm'', JInt 20), (''heightCm'', JInt 20), (''weightKg'', JInt 5),
      (''isMaleSupport'', JStr ''No''), (''importFrom'', JStr ''US'')]"

text \<open>The supplement scenario with the purchase price given as the string \<^verbatim>\<open>nan\<close>.\<close>

definition nan_supplement :: pydict where
  "nan_supplement = (''purchasePrice'', JStr ''nan'') # supplement_example"

text \<open>The supplement scenario with a daily dose of 0.\<close>

definition zero_dose_supplement :: pydict where
  "zero_dose_supplement = (''dailyDose'', JInt 0) # supplement_example"

text \<open>
  The supplement scenario with a daily dose of 0 and the purchase price given as the
  string \<^verbatim>\<open>inf\<close>.
\<close>

definition inf_supplement :: pydict where
  "inf_supplement =
     (''purchasePrice'', JStr ''inf'') # (''dailyDose'', JInt 0) # supplement_example"

text \<open>The device scenario with the weight given as the string \<^verbatim>\<open>nan\<close>.\<close>

definition nan_device :: pydict where
  "nan_device = (''weightKg'', JStr ''nan'') # device_example"

text \<open>A device payload with a purchase price of zero.\<close>

definition free_device :: pydict where
  "free_device =
     [(''purchasePrice'', JInt 0), (''fxRate'', JInt 50), (''lengthCm'', JInt 20),
      (''widthCm'', JInt 20), (''heightCm'', JInt 20), (''weightKg'', JInt 5)]"

text \<open>A device payload with a purchase price of \<open>2 ^ 60\<close> and no volume or weight.\<close>

definition huge_device :: pydict where
  "huge_device =
     [(''purchasePrice'', JInt (2 ^ 60)), (''fxRate'', JInt 1), (''lengthCm'', JInt 0),
      (''widthCm'', JInt 0), (''heightCm'', JInt 0), (''weightKg'', JInt 0)]"

text \<open>A supplement payload whose purchase price is the negative integer \<open>- 10 ^ 400\<close>.\<close>

definition huge :: int where
  "huge = 10 ^ 400"

definition huge_negative_supplement :: pydict where
  "huge_negative_supplement =
     [(''purchasePrice'', JInt (- huge)), (''fxRate'', JInt 50), (''weightGrams'', JInt 30),
      (''count'', JInt 60), (''dailyDose'', JInt 2)]"

section \<open>Rounding: exponents and certificates\<close>

lemma pow2_powi: "pow2 e = 2 powi e"
  by (simp add: pow2_def power_int_def field_simps)

lemma pow2_pos: "0 < pow2 e"
  by (simp add: pow2_powi)

lemma pow2_add: "pow2 (a + b) = pow2 a * pow2 b"
  by (simp add: pow2_powi power_int_add)

lemma pow2_mono: "a \<le> b \<Longrightarrow> pow2 a \<le> pow2 b"
  by (simp add: pow2_powi power_int_increasing)

lemma pow2_less_iff: "pow2 a < pow2 b \<longleftrightarrow> a < b"
  unfolding pow2_powi
  by (metis linorder_not_less one_less_numeral_iff power_int_increasing power_int_strict_increasing semiring_norm(76) order_less_imp_le)

lemma pow2_le_iff: "pow2 a \<le> pow2 b \<longleftrightarrow> a \<le> b"
  by (metis pow2_less_iff linorder_not_less)

lemma flog2_bounds:
  assumes "0 < x"
  shows "pow2 (flog2 x) \<le> x \<and> x < pow2 (flog2 x + 1)"
proof -
  obtain p q where pq: "quotient_of x = (p, q)" by (cases "quotient_of x")
  have q: "0 < q" using pq quotient_of_denom_pos by blast
  have x: "x = of_int p / of_int q" using pq quotient_of_div by blast
  have p: "0 < p" using assms q x by (simp add: zero_less_divide_iff)
  define bp where "bp = bitlen p"
  define bq where "bq = bitlen q"
  have bp1: "1 \<le> bp" and bq1: "1 \<le> bq"
    using p q by (auto simp: bp_def bq_def bitlen_alt_def)
  have Bp: "2 ^ nat (bp - 1) \<le> p" "p < 2 ^ nat bp"
    using bitlen_bounds[OF p] by (auto simp: bp_def)
  have Bq: "2 ^ nat (bq - 1) \<le> q" "q < 2 ^ nat bq"
    using bitlen_bounds[OF q] by (auto simp: bq_def)
  have cast: "\<And>n. (2::rat) ^ n = of_int (2 ^ n)" by simp
  have Rp: "pow2 (bp - 1) \<le> of_int p" "of_int p < pow2 bp"
    using Bp bp1 by (simp_all add: pow2_def)
  have Rq: "pow2 (bq - 1) \<le> of_int q" "of_int q < pow2 bq"
    using Bq bq1 by (simp_all add: pow2_def)
  have qpos: "(0::rat) < of_int q" using q by simp
  have up: "x < pow2 (bp - bq + 1)"
  proof -
    have "of_int p < pow2 bp" by (rule Rp)
    also have "pow2 bp = pow2 (bp - bq + 1) * pow2 (bq - 1)"
      by (simp add: pow2_add[symmetric])
    also have "\<dots> \<le> pow2 (bp - bq + 1) * of_int q"
      using Rq(1) pow2_pos[of "bp - bq + 1"] by (simp add: mult_left_mono)
    finally show ?thesis using qpos by (simp add: x pos_divide_less_eq)
  qed
  have lo: "pow2 (bp - bq - 1) < x"
  proof -
    have "pow2 (bp - bq - 1) * of_int q < pow2 (bp - bq - 1) * pow2 bq"
      using Rq(2) pow2_pos[of "bp - bq - 1"] by (simp add: mult_strict_left_mono)
    also have "\<dots> = pow2 (bp - 1)" by (simp add: pow2_add[symmetric])
    also have "\<dots> \<le> of_int p" by (rule Rp)
    finally show ?thesis using qpos by (simp add: x pos_less_divide_eq)
  qed
  show ?thesis
    using up lo by (auto simp: flog2_def pq bp_def[symmetric] bq_def[symmetric] Let_def not_le less_imp_le)
qed

lemma flog2_unique:
  assumes "pow2 e \<le> x" "x < pow2 (e + 1)"
  shows "flog2 x = e"
proof -
  have x: "0 < x" using assms(1) pow2_pos[of e] by linarith
  from flog2_bounds[OF x] have b: "pow2 (flog2 x) \<le> x" "x < pow2 (flog2 x + 1)" by auto
  have "pow2 e < pow2 (flog2 x + 1)" using assms(1) b(2) by linarith
  moreover have "pow2 (flog2 x) < pow2 (e + 1)" using assms(2) b(1) by linarith
  ultimately show ?thesis by (simp add: pow2_less_iff)
qed

lemma rnd_exp:
  assumes "pow2 e \<le> \<bar>x\<bar>" "\<bar>x\<bar> < pow2 (e + 1)"
  shows "rnd x = (let q = pow2 (max e (- 1022) - 52);
               y = of_int (round_half_even (\<bar>x\<bar> / q)) * q
           in if pow2 1024 \<le> y then (if 0 < x then PInf else NInf)
              else Fin (sgn x * y))"
proof -
  have "x \<noteq> 0" using assms(1) pow2_pos[of e] by auto
  then show ?thesis
    by (simp add: rnd_def rpos_def ulp_def bexp_def flog2_unique[OF assms] Let_def)
qed

lemma rhe_eqI:
  assumes "\<bar>x - of_int m\<bar> < 1 / 2"
  shows "round_half_even x = m"
proof -
  define f where "f = \<lfloor>x\<rfloor>"
  have f: "of_int f \<le> x" "x < of_int f + 1" unfolding f_def by linarith+
  have a: "x - of_int m < 1 / 2" "of_int m - x < 1 / 2"
    using assms unfolding abs_less_iff by linarith+
  have m1: "(of_int m :: rat) < of_int (f + 2)"
    using a f by simp
  have m2: "of_int (f - 1) < (of_int m :: rat)"
    using a f by simp
  have "m < f + 2" "f - 1 < m" using m1 m2 by (simp_all only: of_int_less_iff)
  then consider "m = f" | "m = f + 1" by linarith
  then show ?thesis
  proof cases
    case 1
    then have "x - of_int f < 1 / 2" using a f by simp
    then show ?thesis by (simp add: round_half_even_def f_def[symmetric] Let_def 1)
  next
    case 2
    then have "1 / 2 < x - of_int f" using a f by simp
    then show ?thesis by (simp add: round_half_even_def f_def[symmetric] Let_def 2)
  qed
qed

lemma rhe_of_int: "round_half_even (of_int m) = m"
  by (rule rhe_eqI) simp

lemma rnd_cert:
  assumes "pow2 e \<le> \<bar>x\<bar>" "\<bar>x\<bar> < pow2 (e + 1)"
    and "\<bar>\<bar>x\<bar> / pow2 (max e (- 1022) - 52) - of_int m\<bar> < 1 / 2"
    and "of_int m * pow2 (max e (- 1022) - 52) < pow2 1024"
  shows "rnd x = Fin (sgn x * (of_int m * pow2 (max e (- 1022) - 52)))"
  using assms(4) by (simp add: rnd_exp[OF assms(1,2)] rhe_eqI[OF assms(3)] Let_def)


lemma rhe_tie:
  assumes "\<bar>x - of_int m\<bar> = 1 / 2" "even m"
  shows "round_half_even x = m"
proof -
  define f where "f = \<lfloor>x\<rfloor>"
  have f: "of_int f \<le> x" "x < of_int f + 1" unfolding f_def by linarith+
  from assms(1) consider "x = of_int m + 1 / 2" | "x = of_int m - 1 / 2"
    unfolding abs_if by (auto split: if_splits) 
  then show ?thesis
  proof cases
    case 1
    have "(of_int m :: rat) < of_int (f + 1)" "of_int (f - 1) < (of_int m :: rat)"
      using f 1 by simp_all
    then have mf: "m = f" by (simp only: of_int_less_iff)
    have "x - of_int f = 1 / 2" using 1 mf by simp
    then show ?thesis using assms(2) mf
      by (simp add: round_half_even_def f_def[symmetric] Let_def)
  next
    case 2
    have "(of_int m :: rat) < of_int (f + 2)" "of_int f < (of_int m :: rat)"
      using f 2 by simp_all
    then have mf: "m = f + 1" by (simp only: of_int_less_iff)
    have "x - of_int f = 1 / 2" using 2 mf by simp
    then show ?thesis using assms(2) mf
      by (simp add: round_half_even_def f_def[symmetric] Let_def)
  qed
qed

lemma rnd_cert_tie:
  assumes "pow2 e \<le> \<bar>x\<bar>" "\<bar>x\<bar> < pow2 (e + 1)"
    and "\<bar>\<bar>x\<bar> / pow2 (max e (- 1022) - 52) - of_int m\<bar> = 1 / 2" "even m"
    and "of_int m * pow2 (max e (- 1022) - 52) < pow2 1024"
  shows "rnd x = Fin (sgn x * (of_int m * pow2 (max e (- 1022) - 52)))"
  using assms(5) by (simp add: rnd_exp[OF assms(1,2)] rhe_tie[OF assms(3,4)] Let_def)

lemma rnd_int_pos:
  assumes "0 < n" "n \<le> 2 ^ 53"
  shows "rnd (of_int n) = Fin (of_int n)"
proof -
  define x :: rat where "x = of_int n"
  have xpos: "0 < x" using assms(1) by (simp add: x_def)
  define e where "e = flog2 x"
  have b: "pow2 e \<le> x" "x < pow2 (e + 1)" using flog2_bounds[OF xpos] by (simp_all add: e_def)
  have "pow2 0 \<le> x" using assms(1) by (simp add: pow2_def x_def)
  then have "pow2 0 < pow2 (e + 1)" using b(2) by linarith
  then have e0: "0 \<le> e" by (simp add: pow2_less_iff)
  have "x \<le> pow2 53" using assms(2) by (simp add: x_def pow2_def)
  then have "pow2 e \<le> pow2 53" using b(1) by linarith
  then have e53: "e \<le> 53" by (simp add: pow2_le_iff)
  have mx: "max e (- 1022) = e" using e0 by simp
  have "\<exists>m. x / pow2 (e - 52) = of_int m"
  proof (cases "e \<le> 52")
    case True
    then have "pow2 (e - 52) = 1 / 2 ^ nat (52 - e)"
      by (cases "e = 52") (simp_all add: pow2_def)
    then have "x / pow2 (e - 52) = of_int (n * 2 ^ nat (52 - e))" by (simp add: x_def)
    then show ?thesis by blast
  next
    case False
    then have e: "e = 53" using e53 by simp
    then have "pow2 53 \<le> x" using b(1) by simp
    with \<open>x \<le> pow2 53\<close> have "x = pow2 53" by simp
    then have "x / pow2 (e - 52) = of_int (2 ^ 52)" by (simp add: e pow2_def)
    then show ?thesis by blast
  qed
  then obtain m where m: "x / pow2 (e - 52) = of_int m" by blast
  have q0: "pow2 (e - 52) \<noteq> 0" using pow2_pos[of "e - 52"] by simp
  have mq: "of_int m * pow2 (e - 52) = x" using m q0 by (simp add: field_simps)
  have small: "x < pow2 1024"
  proof -
    have "pow2 53 < pow2 1024" by (simp add: pow2_less_iff)
    with \<open>x \<le> pow2 53\<close> show ?thesis by linarith
  qed
  have "rnd x = Fin (sgn x * (of_int m * pow2 (max e (- 1022) - 52)))"
  proof (rule rnd_cert)
    show "pow2 e \<le> \<bar>x\<bar>" "\<bar>x\<bar> < pow2 (e + 1)" using b xpos by simp_all
    show "\<bar>\<bar>x\<bar> / pow2 (max e (- 1022) - 52) - of_int m\<bar> < 1 / 2"
      using xpos m by (simp add: mx)
    show "of_int m * pow2 (max e (- 1022) - 52) < pow2 1024"
      using small mq by (simp add: mx)
  qed
  then show ?thesis using mq xpos by (simp add: mx x_def)
qed

lemma rnd_minus: "rnd (- x) = fneg (rnd x)"
  by (simp add: rnd_def fneg_def Let_def sgn_if)

lemma rnd_int:
  assumes "\<bar>n\<bar> \<le> 2 ^ 53"
  shows "rnd (of_int n) = Fin (of_int n)"
proof -
  consider "n = 0" | "0 < n" | "n < 0" by linarith
  then show ?thesis
  proof cases
    case 1 then show ?thesis by (simp add: rnd_def)
  next
    case 2 then show ?thesis using assms rnd_int_pos by simp
  next
    case 3
    then have "rnd (of_int (- n)) = Fin (of_int (- n))" using assms by (intro rnd_int_pos) simp_all
    then show ?thesis using rnd_minus[of "of_int n"] by (simp add: fneg_def split: pyfloat.splits)
  qed
qed

lemma rnd_numeral: "(numeral k :: int) \<le> 2 ^ 53 \<Longrightarrow> rnd (numeral k) = Fin (numeral k)"
  using rnd_int[of "numeral k"] by simp

lemma rnd_0: "rnd 0 = Fin 0" by (simp add: rnd_def)
lemma rnd_1: "rnd 1 = Fin 1" using rnd_int[of 1] by simp


lemma rhe_numeral: "round_half_even (numeral k) = numeral k"
  using rhe_of_int[of "numeral k"] by simp

section \<open>The scenarios\<close>

lemma supp_s1: "rnd (7 / 5) = Fin (3152519739159347 / 2251799813685248)"
  by (subst rnd_cert[where e="0" and m=6305039478318694]) (simp_all add: pow2_def)

lemma supp_s2: "rnd (431895204264830539 / 562949953421312) = Fin (6748362566637977 / 8796093022208)"
  by (subst rnd_cert[where e="9" and m=6748362566637977]) (simp_all add: pow2_def)

lemma supp_s3: "rnd (10090877915077017 / 8796093022208) = Fin (1261359739384627 / 1099511627776)"
  by (subst rnd_cert_tie[where e="10" and m=5045438957538508]) (simp_all add: pow2_def)

lemma supp_s4: "rnd (1261359739384627 / 1099511627776) = Fin (1261359739384627 / 1099511627776)"
  by (subst rnd_cert[where e="10" and m=5045438957538508]) (simp_all add: pow2_def)

lemma supp_s5: "rnd (37 / 100) = Fin (3332663724254167 / 9007199254740992)"
  by (subst rnd_cert[where e="-2" and m=6665327448508334]) (simp_all add: pow2_def)

lemma supp_s6: "rnd (12339862978995159 / 9007199254740992) = Fin (1542482872374395 / 1125899906842624)"
  by (subst rnd_cert_tie[where e="0" and m=6169931489497580]) (simp_all add: pow2_def)

lemma supp_s7: "rnd (1945625793903417747235651425665 / 1237940039285380274899124224) = Fin (1728062842956939 / 1099511627776)"
  by (subst rnd_cert[where e="10" and m=6912251371827756]) (simp_all add: pow2_def)

lemma supp_s8: "rnd (1728062842956939 / 54975581388800) = Fin (1105960219492441 / 35184372088832)"
  by (subst rnd_cert[where e="4" and m=8847681755939528]) (simp_all add: pow2_def)

lemma supp_s9: "rnd (497858865056973 / 1099511627776) = Fin (497858865056973 / 1099511627776)"
  by (subst rnd_cert[where e="8" and m=7965741840911568]) (simp_all add: pow2_def)

lemma supp_s10: "rnd (497858865056973 / 1759218604441600) = Fin (1274518694545851 / 4503599627370496)"
  by (subst rnd_cert[where e="-2" and m=5098074778183404]) (simp_all add: pow2_def)

lemma supp_s11: "rnd (31862967363646275 / 1125899906842624) = Fin (7965741840911569 / 281474976710656)"
  by (subst rnd_cert[where e="4" and m=7965741840911569]) (simp_all add: pow2_def)

lemma supp_s12: "rnd (283 / 10) = Fin (7965741840911565 / 281474976710656)"
  by (subst rnd_cert[where e="4" and m=7965741840911565]) (simp_all add: pow2_def)

lemma supp_s13: "round_half_even (1261359739384627 / 1099511627776) = 1147"
  by (rule rhe_eqI) simp

lemma supp_s14: "round_half_even (497858865056973 / 1099511627776) = 453"
  by (rule rhe_eqI) simp

lemma supp_s15: "round_half_even (39828709204557845 / 140737488355328) = 283"
  by (rule rhe_eqI) simp

lemma supp_c1: "\<lceil>1105960219492441 / 35184372088832 :: rat\<rceil> = 32"
  by (rule ceiling_unique) simp_all

lemmas supp_facts = supp_s1 supp_s2 supp_s3 supp_s4 supp_s5 supp_s6 supp_s7 supp_s8 supp_s9 supp_s10 supp_s11 supp_s12 supp_s13 supp_s14 supp_s15 supp_c1

lemma dev_d1: "rnd (3 / 20) = Fin (5404319552844595 / 36028797018963968)"
  by (subst rnd_cert[where e="-3" and m=5404319552844595]) (simp_all add: pow2_def)

lemma dev_d2: "rnd (41433116571808563 / 36028797018963968) = Fin (2589569785738035 / 2251799813685248)"
  by (subst rnd_cert[where e="0" and m=5179139571476070]) (simp_all add: pow2_def)

lemma dev_d3: "rnd (21040254509121534375 / 281474976710656) = Fin (74750)"
  by (subst rnd_cert[where e="16" and m=5136780886016000]) (simp_all add: pow2_def)

lemma dev_d4: "rnd (3 / 23) = Fin (4699408306821387 / 36028797018963968)"
  by (subst rnd_cert[where e="-3" and m=4699408306821387]) (simp_all add: pow2_def)

lemma dev_d5: "rnd (117485207670534675 / 9007199254740992) = Fin (7342825479408417 / 562949953421312)"
  by (subst rnd_cert[where e="3" and m=7342825479408417]) (simp_all add: pow2_def)

lemma dev_d6: "round_half_even (36714127397042085 / 281474976710656) = 130"
  by (rule rhe_eqI) simp

lemma dev_c1: "\<lceil>1495 :: rat\<rceil> = 1495"
  by (rule ceiling_unique) simp_all

lemmas dev_facts = dev_d1 dev_d2 dev_d3 dev_d4 dev_d5 dev_d6 dev_c1

lemmas eval_defs = bnd_def float_of_int_def lit_def py_round_def fsub_def fneg_def fgt_def
  py_min_def Let_def rnd_numeral rnd_0 rnd_1 rhe_numeral

lemma supplement_example_total:
  "supplement_total_cost (Fin 10) (Fin 50) (Fin 30) (Fin 60) (Fin 2) (Fin 1)
     = Inr (Fin (1261359739384627 / 1099511627776))"
  by (simp add: supplement_total_cost_def dosage_adjustment_def months_supply_def days_supply_def
        eval_defs supp_facts)

lemma supplement_example_price:
  "round_up_50 (final_price_raw (37 / 100) (Fin (1261359739384627 / 1099511627776))) = Inr 1600"
  by (simp add: round_up_50_def final_price_raw_def eval_defs supp_facts)

lemma supplement_example_breakdown:
  "make_breakdown (Fin 500) (Fin (1261359739384627 / 1099511627776)) 1600 =
     Inr \<lparr>baseCost = Fin 500, totalCost = Fin 1147, finalPrice = 1600, profit = Fin 453,
          margin = lit (283 / 10)\<rparr>"
  by (simp add: make_breakdown_def eval_defs supp_facts)

lemmas supplement_example_steps = supplement_example_total supplement_example_price
  supplement_example_breakdown

text \<open>
  C5: on the supplement scenario of the specification the formula returns
  baseCost 500, totalCost 1147, finalPrice 1600, profit 453 and margin 28.3
  (the float written \<^verbatim>\<open>28.3\<close>).
\<close>

theorem supplement_scenario:
  "calculate_supplement_price supplement_example =
     Inr \<lparr>baseCost = Fin 500, totalCost = Fin 1147, finalPrice = 1600, profit = Fin 453,
          margin = lit (283 / 10)\<rparr>"
  by (simp add: supplement_example_def calculate_supplement_price_def supplement_costs_def
        price_breakdown_def multiplier_def MULTIPLIERS_def
        dict_get_def bnd_def float_of_int_def rnd_numeral rnd_1 supplement_example_steps)


text \<open>
  C6: on the device scenario of the specification the formula returns
  baseCost 5000, totalCost 65000, finalPrice 74750, profit 9750 and margin 13.0.
\<close>

theorem device_scenario:
  "calculate_device_price device_example =
     Inr \<lparr>baseCost = Fin 5000, totalCost = Fin 65000, finalPrice = 74750, profit = Fin 9750,
          margin = Fin 13\<rparr>"
  by (simp add: device_example_def calculate_device_price_def device_costs_def price_breakdown_def
        final_price_raw_def device_total_cost_def round_up_50_def make_breakdown_def multiplier_def MULTIPLIERS_def dict_get_def eval_defs dev_facts)

section \<open>More on rounding\<close>

lemma rhe_0: "round_half_even 0 = 0"
  using rhe_of_int[of 0] by simp

lemma ceil_0: "\<lceil>0 :: rat\<rceil> = 0" by simp

lemma pow2_numeral: "pow2 (numeral k) = 2 ^ numeral k"
  by (simp add: pow2_def)

lemma rhe_bounds: "of_int (round_half_even x) \<le> x + 1 / 2" "x - 1 / 2 \<le> of_int (round_half_even x)"
proof -
  define f where "f = \<lfloor>x\<rfloor>"
  have f: "of_int f \<le> x" "x < of_int f + 1" unfolding f_def by linarith+
  show "of_int (round_half_even x) \<le> x + 1 / 2" "x - 1 / 2 \<le> of_int (round_half_even x)"
    using f by (auto simp: round_half_even_def f_def[symmetric] Let_def)
qed

lemma rhe_mono: "x \<le> y \<Longrightarrow> round_half_even x \<le> round_half_even y"
proof -
  assume xy: "x \<le> y"
  define f where "f = \<lfloor>x\<rfloor>"
  define g where "g = \<lfloor>y\<rfloor>"
  have f: "of_int f \<le> x" "x < of_int f + 1" unfolding f_def by linarith+
  have g: "of_int g \<le> y" "y < of_int g + 1" unfolding g_def by linarith+
  have fg: "f \<le> g" unfolding f_def g_def using xy by (rule floor_mono)
  show ?thesis
  proof (cases "f = g")
    case True
    then show ?thesis using xy f g
      by (auto simp: round_half_even_def f_def[symmetric] g_def[symmetric] Let_def)
  next
    case False
    then have "f + 1 \<le> g" using fg by simp
    moreover have "round_half_even x \<le> f + 1"
      by (auto simp: round_half_even_def f_def[symmetric] Let_def)
    moreover have "g \<le> round_half_even y"
      by (auto simp: round_half_even_def g_def[symmetric] Let_def)
    ultimately show ?thesis by linarith
  qed
qed

lemma rhe_ge_int: "of_int n \<le> x \<Longrightarrow> n \<le> round_half_even x"
  using rhe_mono[of "of_int n" x] by (simp add: rhe_of_int)

lemma rhe_le_int: "x \<le> of_int n \<Longrightarrow> round_half_even x \<le> n"
  using rhe_mono[of x "of_int n"] by (simp add: rhe_of_int)

lemma rnd_overflow:
  assumes "pow2 1024 \<le> \<bar>x\<bar>"
  shows "rnd x = (if 0 < x then PInf else NInf)"
proof -
  have xpos: "0 < \<bar>x\<bar>" using assms pow2_pos[of 1024] by linarith
  define e where "e = flog2 \<bar>x\<bar>"
  have b: "pow2 e \<le> \<bar>x\<bar>" "\<bar>x\<bar> < pow2 (e + 1)" using flog2_bounds[OF xpos] by (simp_all add: e_def)
  have "pow2 1024 < pow2 (e + 1)" using assms b(2) by linarith
  then have e: "1024 \<le> e" by (simp add: pow2_less_iff)
  have mx: "max e (- 1022) = e" using e by simp
  define q where "q = pow2 (e - 52)"
  have qpos: "0 < q" by (simp add: q_def pow2_pos)
  have p52: "pow2 52 = of_int (2 ^ 52)" by (simp add: pow2_def)
  have eq: "pow2 e = of_int (2 ^ 52) * q"
    unfolding p52[symmetric] q_def by (simp add: pow2_add[symmetric])
  have "of_int (2 ^ 52) * q \<le> \<bar>x\<bar>" using b(1) unfolding eq .
  then have "of_int (2 ^ 52) \<le> \<bar>x\<bar> / q" using qpos by (simp add: pos_le_divide_eq)
  then have "2 ^ 52 \<le> round_half_even (\<bar>x\<bar> / q)" by (rule rhe_ge_int)
  then have "(of_int (2 ^ 52) :: rat) \<le> of_int (round_half_even (\<bar>x\<bar> / q))"
    by (simp only: of_int_le_iff)
  then have "of_int (2 ^ 52) * q \<le> of_int (round_half_even (\<bar>x\<bar> / q)) * q"
    using qpos by (rule_tac mult_right_mono) simp_all
  moreover have "pow2 1024 \<le> pow2 e" using e by (simp add: pow2_le_iff)
  ultimately have "pow2 1024 \<le> of_int (round_half_even (\<bar>x\<bar> / q)) * q"
    unfolding eq by linarith
  then show ?thesis using xpos
    by (simp add: rnd_def rpos_def ulp_def bexp_def e_def[symmetric] mx q_def[symmetric] Let_def)
qed


section \<open>The calculate operation and the validators\<close>

text \<open>
  C8: a payload whose category is present and is neither \<^verbatim>\<open>supplement\<close> nor
  \<^verbatim>\<open>device\<close> is answered with the error 400 and an unchanged table, whatever the
  validators and the formulas are: none of them is called.
\<close>

theorem unknown_category_rejected:
  assumes "map_of d ''category'' = Some c" and "c \<noteq> JStr ''supplement''" and "c \<noteq> JStr ''device''"
  shows "handle_calculate_with validate_s validate_d calculate_s calculate_d debug db (JDict d)
           = Inr (db, ErrorBody invalid_category_message, 400)"
proof -
  have "d \<noteq> []" using assms(1) by auto
  then show ?thesis using assms
    by (simp add: handle_calculate_with_def dict_get_def)
qed

theorem unknown_category_rejected_witness:
  "map_of [(''category'', JStr ''gadget'')] ''category'' = Some (JStr ''gadget'')
   \<and> JStr ''gadget'' \<noteq> JStr ''supplement'' \<and> JStr ''gadget'' \<noteq> JStr ''device''
   \<and> handle_calculate False [] (JDict [(''category'', JStr ''gadget'')])
         = Inr ([], ErrorBody invalid_category_message, 400)"
  using unknown_category_rejected[of "[(''category'', JStr ''gadget'')]" "JStr ''gadget''"
          validate_supplement_inputs validate_device_inputs calculate_supplement_price
          calculate_device_price False "[]"]
  by (simp add: handle_calculate_def)

text \<open>
  C10, as stated, fails on the empty payload: \<^verbatim>\<open>if not data\<close> rejects it before the
  category is read, with an answer that differs from the one of the supplement path.
\<close>

theorem empty_payload_not_supplement_path:
  "map_of [] ''category'' = (None :: json option)
   \<and> handle_calculate False [] (JDict [])
       \<noteq> Inr (calculate_and_store validate_supplement_inputs calculate_supplement_price
                 False [] ''supplement'' [])"
  by (simp add: handle_calculate_def handle_calculate_with_def calculate_and_store_def
        validate_supplement_inputs_def bnd_def)

text \<open>
  C10, amended: a non-empty payload without a \<^verbatim>\<open>category\<close> field is handled as a
  supplement: the answer and the table are those of the supplement validator and the
  supplement formula.
\<close>

theorem missing_category_defaults_to_supplement:
  assumes "d \<noteq> []" and "map_of d ''category'' = None"
  shows "handle_calculate debug db (JDict d)
           = Inr (calculate_and_store validate_supplement_inputs calculate_supplement_price
                    debug db ''supplement'' d)"
  using assms by (simp add: handle_calculate_def handle_calculate_with_def dict_get_def)

theorem missing_category_defaults_to_supplement_witness:
  "supplement_example \<noteq> [] \<and> map_of supplement_example ''category'' = None
   \<and> handle_calculate False [] (JDict supplement_example)
       = Inr (calculate_and_store validate_supplement_inputs calculate_supplement_price
                False [] ''supplement'' supplement_example)"
  using missing_category_defaults_to_supplement[of supplement_example False "[]"]
  by (simp add: supplement_example_def)

text \<open>
  The device formula has no guard for a final price of 0: a device payload with purchase
  price 0 passes validation, the total cost and the final price are 0, and the margin
  expression divides by the final price and raises ZeroDivisionError.
\<close>

theorem free_device_division_by_zero:
  "validate_device_inputs free_device = Inr True
   \<and> calculate_device_price free_device = Inl (ZeroDivisionError ''float division by zero'')"
  by (simp add: free_device_def validate_device_inputs_def calculate_device_price_def
        device_costs_def price_breakdown_def final_price_raw_def
        device_total_cost_def round_up_50_def make_breakdown_def multiplier_def MULTIPLIERS_def
        dict_get_def eval_defs rhe_0 dev_facts)

lemma rnd_huge_negative: "rnd (- of_int huge) = NInf"
  by (subst rnd_overflow) (simp_all add: pow2_def huge_def)

text \<open>
  C3: on a negative integer too large for a float the validator does not raise its
  ValueError: the OverflowError of \<^verbatim>\<open>float\<close> is not caught and leaves the validator.
\<close>

theorem huge_negative_overflow:
  "validate_supplement_inputs huge_negative_supplement
     = Inl (OverflowError ''int too large to convert to float'')"
  by (simp add: huge_negative_supplement_def validate_supplement_inputs_def float_of_int_def
        rnd_huge_negative)

section \<open>Categorical attributes\<close>

lemma map_of_omit: "map_of (omit field d) k = (if k = field then None else map_of d k)"
  by (induction d) (auto simp: omit_def)

lemma dict_get_omit: "k \<noteq> field \<Longrightarrow> dict_get (omit field d) k dflt = dict_get d k dflt"
  by (simp add: dict_get_def map_of_omit)

lemma multiplier_miss:
  assumes "hashable v" and "\<not> is_key name v" and "map_of MULTIPLIERS name \<noteq> None"
  shows "multiplier name (Some v) = Inr (Fin 1)"
  using assms by (cases v) (auto simp: multiplier_def split: option.splits)

lemma multiplier_None:
  assumes "map_of MULTIPLIERS name \<noteq> None"
  shows "multiplier name None = Inr (Fin 1)"
  using assms by (auto simp: multiplier_def split: option.splits)

lemma supplement_table:
  "(field, name) \<in> set supplement_categorical \<Longrightarrow> map_of MULTIPLIERS name \<noteq> None"
  by (auto simp: supplement_categorical_def MULTIPLIERS_def)

lemma device_table:
  "(field, name) \<in> set device_categorical \<Longrightarrow> map_of MULTIPLIERS name \<noteq> None"
  by (auto simp: device_categorical_def MULTIPLIERS_def)

lemma supplement_omit:
  assumes "(field, name) \<in> set supplement_categorical"
    and "multiplier name (map_of d field) = Inr (Fin 1)"
  shows "calculate_supplement_price (omit field d) = calculate_supplement_price d"
proof -
  have n: "multiplier name None = Inr (Fin 1)"
    using assms(1) by (intro multiplier_None supplement_table)
  have "field = ''productShape'' \<and> name = ''productShape''
      \<or> field = ''packingMaterial'' \<and> name = ''packingMaterial''
      \<or> field = ''bottleSize'' \<and> name = ''bottleSize''
      \<or> field = ''isMaleSupport'' \<and> name = ''maleSupport''
      \<or> field = ''importFrom'' \<and> name = ''importOrigin''"
    using assms(1) by (simp add: supplement_categorical_def)
  then show ?thesis using n assms(2)
    by (elim disjE conjE)
       (simp_all add: calculate_supplement_price_def supplement_costs_def dict_get_omit map_of_omit)
qed

lemma device_omit:
  assumes "(field, name) \<in> set device_categorical"
    and "multiplier name (map_of d field) = Inr (Fin 1)"
  shows "calculate_device_price (omit field d) = calculate_device_price d"
proof -
  have n: "multiplier name None = Inr (Fin 1)"
    using assms(1) by (intro multiplier_None device_table)
  have "field = ''isMaleSupport'' \<and> name = ''maleSupport''
      \<or> field = ''importFrom'' \<and> name = ''importOrigin''"
    using assms(1) by (simp add: device_categorical_def)
  then show ?thesis using n assms(2)
    by (elim disjE conjE)
       (simp_all add: calculate_device_price_def device_costs_def dict_get_omit map_of_omit)
qed

text \<open>
  C7, amended: for a hashable value (a string, a number, a bool or null) that is not a
  key of the table, the lookup gives the multiplier 1 without error, and each formula
  returns on the payload what it returns on the payload with that field left out.
\<close>

theorem unknown_categorical_is_neutral:
  assumes "hashable v" and "map_of d field = Some v" and "\<not> is_key name v"
  shows "((field, name) \<in> set supplement_categorical \<longrightarrow>
            multiplier name (Some v) = Inr (Fin 1)
            \<and> calculate_supplement_price d = calculate_supplement_price (omit field d))
       \<and> ((field, name) \<in> set device_categorical \<longrightarrow>
            multiplier name (Some v) = Inr (Fin 1)
            \<and> calculate_device_price d = calculate_device_price (omit field d))"
proof (intro conjI impI)
  assume m: "(field, name) \<in> set supplement_categorical"
  then have t: "map_of MULTIPLIERS name \<noteq> None"
    by (rule supplement_table)
  show 1: "multiplier name (Some v) = Inr (Fin 1)"
    by (rule multiplier_miss[OF assms(1) assms(3) t])
  show "calculate_supplement_price d = calculate_supplement_price (omit field d)"
    using supplement_omit[OF m, of d] 1 assms(2) by simp
next
  assume m: "(field, name) \<in> set device_categorical"
  then have t: "map_of MULTIPLIERS name \<noteq> None"
    by (rule device_table)
  show 1: "multiplier name (Some v) = Inr (Fin 1)"
    by (rule multiplier_miss[OF assms(1) assms(3) t])
  show "calculate_device_price d = calculate_device_price (omit field d)"
    using device_omit[OF m, of d] 1 assms(2) by simp
qed

theorem unknown_categorical_is_neutral_witness:
  "hashable (JStr ''Maybe'')
   \<and> map_of ((''isMaleSupport'', JStr ''Maybe'') # supplement_example) ''isMaleSupport'' = Some (JStr ''Maybe'')
   \<and> \<not> is_key ''maleSupport'' (JStr ''Maybe'')
   \<and> (''isMaleSupport'', ''maleSupport'') \<in> set supplement_categorical
   \<and> (''isMaleSupport'', ''maleSupport'') \<in> set device_categorical
   \<and> multiplier ''maleSupport'' (Some (JStr ''Maybe'')) = Inr (Fin 1)
   \<and> calculate_supplement_price ((''isMaleSupport'', JStr ''Maybe'') # supplement_example)
       = calculate_supplement_price (omit ''isMaleSupport'' ((''isMaleSupport'', JStr ''Maybe'') # supplement_example))
   \<and> calculate_device_price ((''isMaleSupport'', JStr ''Maybe'') # supplement_example)
       = calculate_device_price (omit ''isMaleSupport'' ((''isMaleSupport'', JStr ''Maybe'') # supplement_example))"
  using unknown_categorical_is_neutral[of "JStr ''Maybe''"
          "(''isMaleSupport'', JStr ''Maybe'') # supplement_example" "''isMaleSupport''" "''maleSupport''"]
  by (simp add: supplement_categorical_def device_categorical_def MULTIPLIERS_def)

text \<open>
  C7, as stated, fails on an unhashable value: with the list \<^verbatim>\<open>[]\<close> as product shape
  the lookup raises TypeError, while the payload without the field is priced.
\<close>

theorem unhashable_categorical_raises:
  "\<not> is_key ''productShape'' (JList [])
   \<and> calculate_supplement_price ((''productShape'', JList []) # supplement_example)
       = Inl (TypeError (''unhashable type: '' @ quoted ''list''))
   \<and> calculate_supplement_price (omit ''productShape'' ((''productShape'', JList []) # supplement_example))
       = Inr \<lparr>baseCost = Fin 500, totalCost = Fin 1147, finalPrice = 1600, profit = Fin 453,
              margin = lit (283 / 10)\<rparr>"
  by (simp add: omit_def supplement_example_def calculate_supplement_price_def supplement_costs_def
        price_breakdown_def multiplier_def MULTIPLIERS_def
        dict_get_def bnd_def float_of_int_def rnd_numeral rnd_1 supplement_example_steps)

section \<open>Rounding is monotone\<close>

lemma flog2_mono:
  assumes "0 < x" "x \<le> y"
  shows "flog2 x \<le> flog2 y"
proof -
  have y: "0 < y" using assms by linarith
  have "pow2 (flog2 x) \<le> x" using flog2_bounds[OF assms(1)] by simp
  moreover have "y < pow2 (flog2 y + 1)" using flog2_bounds[OF y] by simp
  ultimately have "pow2 (flog2 x) < pow2 (flog2 y + 1)" using assms(2) by linarith
  then show ?thesis by (simp add: pow2_less_iff)
qed

lemma bexp_mono: "0 < x \<Longrightarrow> x \<le> y \<Longrightarrow> bexp x \<le> bexp y"
  using flog2_mono[of x y] by (simp add: bexp_def)

lemma ulp_pos: "0 < ulp x"
  by (simp add: ulp_def pow2_pos)

lemma ulp_mono: "0 < x \<Longrightarrow> x \<le> y \<Longrightarrow> ulp x \<le> ulp y"
  using bexp_mono[of x y] by (simp add: ulp_def pow2_le_iff)

lemma pow2_53_ulp: "of_int (2 ^ 53) * ulp x = pow2 (bexp x + 1)"
proof -
  have "pow2 53 = of_int (2 ^ 53)" by (simp add: pow2_def)
  then have "of_int (2 ^ 53) * ulp x = pow2 53 * pow2 (bexp x - 52)" by (simp add: ulp_def)
  also have "\<dots> = pow2 (bexp x + 1)" unfolding pow2_add[symmetric] by (simp add: algebra_simps)
  finally show ?thesis .
qed

lemma pow2_52_ulp: "of_int (2 ^ 52) * ulp x = pow2 (bexp x)"
proof -
  have "pow2 52 = of_int (2 ^ 52)" by (simp add: pow2_def)
  then have "of_int (2 ^ 52) * ulp x = pow2 52 * pow2 (bexp x - 52)" by (simp add: ulp_def)
  also have "\<dots> = pow2 (bexp x)" unfolding pow2_add[symmetric] by (simp add: algebra_simps)
  finally show ?thesis .
qed

lemma below_next_binade:
  assumes "0 < x"
  shows "x < pow2 (bexp x + 1)"
proof -
  have "x < pow2 (flog2 x + 1)" using flog2_bounds[OF assms] by simp
  also have "\<dots> \<le> pow2 (bexp x + 1)" by (simp add: pow2_le_iff bexp_def)
  finally show ?thesis .
qed

lemma rpos_le_next_binade:
  assumes "0 < x"
  shows "rpos x \<le> pow2 (bexp x + 1)"
proof -
  have "x / ulp x \<le> of_int (2 ^ 53)"
    using below_next_binade[OF assms] ulp_pos[of x] pow2_53_ulp[of x]
    by (simp add: pos_divide_le_eq)
  then have "round_half_even (x / ulp x) \<le> 2 ^ 53" by (rule rhe_le_int)
  then have "(of_int (round_half_even (x / ulp x)) :: rat) \<le> of_int (2 ^ 53)"
    by (simp only: of_int_le_iff)
  then have "of_int (round_half_even (x / ulp x)) * ulp x \<le> of_int (2 ^ 53) * ulp x"
    using ulp_pos[of x] by (rule_tac mult_right_mono) simp_all
  then show ?thesis unfolding rpos_def pow2_53_ulp .
qed

lemma rpos_ge_binade:
  assumes "0 < x" "- 1022 \<le> flog2 x"
  shows "pow2 (bexp x) \<le> rpos x"
proof -
  have b: "bexp x = flog2 x" using assms(2) by (simp add: bexp_def)
  have "pow2 (bexp x) \<le> x" using flog2_bounds[OF assms(1)] b by simp
  then have "of_int (2 ^ 52) \<le> x / ulp x"
    using ulp_pos[of x] pow2_52_ulp[of x] by (simp add: pos_le_divide_eq)
  then have "2 ^ 52 \<le> round_half_even (x / ulp x)" by (rule rhe_ge_int)
  then have "(of_int (2 ^ 52) :: rat) \<le> of_int (round_half_even (x / ulp x))"
    by (simp only: of_int_le_iff)
  then have "of_int (2 ^ 52) * ulp x \<le> of_int (round_half_even (x / ulp x)) * ulp x"
    using ulp_pos[of x] by (rule_tac mult_right_mono) simp_all
  then show ?thesis unfolding rpos_def pow2_52_ulp .
qed

lemma rpos_mono:
  assumes "0 < x" "x \<le> y"
  shows "rpos x \<le> rpos y"
proof (cases "bexp x = bexp y")
  case True
  then have u: "ulp x = ulp y" by (simp add: ulp_def)
  have "x / ulp y \<le> y / ulp y" using assms(2) ulp_pos[of y] by (simp add: divide_right_mono)
  then have "round_half_even (x / ulp y) \<le> round_half_even (y / ulp y)" by (rule rhe_mono)
  then have "(of_int (round_half_even (x / ulp y)) :: rat) \<le> of_int (round_half_even (y / ulp y))"
    by (simp only: of_int_le_iff)
  then show ?thesis unfolding rpos_def u
    using ulp_pos[of y] by (rule_tac mult_right_mono) simp_all
next
  case False
  have y: "0 < y" using assms by linarith
  have lt: "bexp x < bexp y" using False bexp_mono[OF assms] by simp
  have "- 1022 \<le> bexp x" by (simp add: bexp_def)
  then have fy: "- 1022 \<le> flog2 y" using lt by (auto simp: bexp_def max_def split: if_splits)
  have "rpos x \<le> pow2 (bexp x + 1)" by (rule rpos_le_next_binade[OF assms(1)])
  also have "\<dots> \<le> pow2 (bexp y)" using lt by (simp add: pow2_le_iff)
  also have "\<dots> \<le> rpos y" by (rule rpos_ge_binade[OF y fy])
  finally show ?thesis .
qed

lemma rhe_nonneg: "0 \<le> x \<Longrightarrow> 0 \<le> round_half_even x"
  using rhe_ge_int[of 0 x] by simp

lemma rpos_nonneg: "0 \<le> x \<Longrightarrow> 0 \<le> rpos x"
  unfolding rpos_def using ulp_pos[of x] rhe_nonneg[of "x / ulp x"]
  by (simp add: zero_le_mult_iff zero_le_divide_iff less_imp_le)

lemma rnd_pos:
  assumes "0 < x"
  shows "rnd x = (if pow2 1024 \<le> rpos x then PInf else Fin (rpos x))"
  using assms by (simp add: rnd_def Let_def)

lemma rnd_mono_pos:
  assumes "0 < x" "x \<le> y"
  shows "fle (rnd x) (rnd y)"
proof -
  have y: "0 < y" using assms by linarith
  show ?thesis using rpos_mono[OF assms]
    by (auto simp: rnd_pos[OF assms(1)] rnd_pos[OF y] fle_def)
qed

lemma fle_fneg: "fle a b \<Longrightarrow> fle (fneg b) (fneg a)"
  by (cases a; cases b) (auto simp: fle_def fneg_def)

lemma rnd_nonneg: "0 \<le> x \<Longrightarrow> fle (Fin 0) (rnd x)"
proof -
  assume "0 \<le> x"
  then consider "x = 0" | "0 < x" by linarith
  then show ?thesis
  proof cases
    case 1 then show ?thesis by (simp add: rnd_0 fle_def)
  next
    case 2
    then show ?thesis using rpos_nonneg[of x]
      by (auto simp: rnd_pos fle_def)
  qed
qed

lemma fle_trans: "fle a b \<Longrightarrow> fle b c \<Longrightarrow> fle a c"
  by (cases a; cases b; cases c) (auto simp: fle_def)

lemma rnd_mono:
  assumes "x \<le> y"
  shows "fle (rnd x) (rnd y)"
proof -
  consider "0 < x" | "x \<le> 0" "0 \<le> y" | "y < 0" by linarith
  then show ?thesis
  proof cases
    case 1 then show ?thesis using assms by (rule rnd_mono_pos)
  next
    case 2
    have a: "fle (Fin 0) (rnd y)" using 2(2) by (rule rnd_nonneg)
    have "fle (Fin 0) (rnd (- x))" using 2(1) by (intro rnd_nonneg) simp
    then have "fle (fneg (rnd (- x))) (fneg (Fin 0))" by (rule fle_fneg)
    then have b: "fle (rnd x) (Fin 0)"
      using rnd_minus[of "- x"] by (simp add: fneg_def)
    show ?thesis by (rule fle_trans[OF b a])
  next
    case 3
    then have "fle (rnd (- y)) (rnd (- x))" using assms by (intro rnd_mono_pos) simp_all
    then have "fle (fneg (rnd (- x))) (fneg (rnd (- y)))" by (rule fle_fneg)
    then show ?thesis using rnd_minus[of "- x"] rnd_minus[of "- y"] by simp
  qed
qed

lemma rnd_ge:
  assumes "c \<le> x" "rnd c = Fin c"
  shows "fle (Fin c) (rnd x)"
  using rnd_mono[OF assms(1)] assms(2) by simp

lemma rnd_le:
  assumes "x \<le> c" "rnd c = Fin c"
  shows "fle (rnd x) (Fin c)"
  using rnd_mono[OF assms(1)] assms(2) by simp

lemma rnd_between:
  assumes "a \<le> x" "x \<le> b" "rnd a = Fin a" "rnd b = Fin b"
  shows "\<exists>y. rnd x = Fin y \<and> a \<le> y \<and> y \<le> b"
  using rnd_ge[OF assms(1,3)] rnd_le[OF assms(2,4)]
  by (cases "rnd x") (auto simp: fle_def)

lemma validate_fields_ok:
  assumes "validate_fields fs d = Inr True" "f \<in> set fs"
  shows "\<exists>v x. map_of d f = Some v \<and> py_float v = Inr x \<and> nonneg x"
  using assms
  by (induction fs) (auto simp: nonneg_def split: option.splits if_splits sum.splits py_error.splits)

lemma validated_get:
  assumes "validate_fields fs d = Inr True" "f \<in> set fs"
  shows "\<exists>x. py_float (dict_get d f dflt) = Inr x \<and> nonneg x"
  using validate_fields_ok[OF assms] by (auto simp: dict_get_def)

lemma nonneg_cases:
  "nonneg a \<longleftrightarrow> a = NaN \<or> a = PInf \<or> (\<exists>x. a = Fin x \<and> 0 \<le> x)"
  by (cases a) (auto simp: nonneg_def)

lemma fle_0_nonneg: "fle (Fin 0) a \<Longrightarrow> nonneg a"
  by (cases a) (auto simp: fle_def nonneg_def)

lemma nonneg_rnd: "0 \<le> x \<Longrightarrow> nonneg (rnd x)"
  by (rule fle_0_nonneg[OF rnd_nonneg])

lemma nonneg_fmul: "nonneg a \<Longrightarrow> nonneg b \<Longrightarrow> nonneg (fmul a b)"
  by (cases a; cases b) (auto simp: nonneg_def[of "Fin _"] nonneg_def[of PInf] nonneg_def[of NaN] nonneg_def[of NInf]
        inf_of_sign_def intro: nonneg_rnd)

lemma nonneg_fadd: "nonneg a \<Longrightarrow> nonneg b \<Longrightarrow> nonneg (fadd a b)"
  by (cases a; cases b) (auto simp: nonneg_def[of "Fin _"] nonneg_def[of PInf] nonneg_def[of NaN] nonneg_def[of NInf]
        intro: nonneg_rnd)

lemma fdiv_pos:
  assumes "nonneg a" "0 < k"
  shows "\<exists>r. fdiv a (Fin k) = Inr r \<and> nonneg r"
  using assms
  by (cases a) (auto simp: nonneg_def[of "Fin _"] nonneg_def[of PInf] nonneg_def[of NaN] nonneg_def[of NInf]
        inf_of_sign_def intro: nonneg_rnd)

lemma days_supply_nonneg:
  assumes "nonneg c"
  shows "\<exists>ds. days_supply c dd = Inr ds \<and> nonneg ds"
proof (cases "fgt dd (Fin 0)")
  case False
  then show ?thesis by (simp add: days_supply_def nonneg_def)
next
  case True
  then consider y where "dd = Fin y" "0 < y" | "dd = PInf"
    by (cases dd) (auto simp: fgt_def)
  then show ?thesis
  proof cases
    case 1
    then show ?thesis using fdiv_pos[OF assms, of y] True by (simp add: days_supply_def)
  next
    case 2
    then show ?thesis using assms True
      by (cases c) (auto simp: days_supply_def nonneg_def)
  qed
qed

lemma months_supply_nonneg:
  assumes "nonneg c"
  shows "\<exists>ms. months_supply c dd = Inr ms \<and> nonneg ms"
proof -
  obtain ds where ds: "days_supply c dd = Inr ds" "nonneg ds"
    using days_supply_nonneg[OF assms] by blast
  show ?thesis using fdiv_pos[OF ds(2), of 30] ds(1)
    by (simp add: months_supply_def bnd_def)
qed

lemma rnd_3: "rnd 3 = Fin 3" by (simp add: rnd_numeral)
lemma rnd_150: "rnd 150 = Fin 150" by (simp add: rnd_numeral)

lemma dose_factor_range:
  assumes "nonneg ms"
  shows "\<exists>df. (if fgt ms (Fin 0) then fdiv (Fin 3) ms else Inr (Fin 3)) = Inr df
              \<and> (\<exists>d. py_min (Fin 3) df = Fin d \<and> 0 \<le> d \<and> d \<le> 3)"
proof (cases "fgt ms (Fin 0)")
  case False
  then show ?thesis by (simp add: py_min_def)
next
  case True
  then consider m where "ms = Fin m" "0 < m" | "ms = PInf"
    by (cases ms) (auto simp: fgt_def)
  then show ?thesis
  proof cases
    case 1
    have "fle (Fin 0) (rnd (3 / m))" using 1(2) by (intro rnd_nonneg) simp
    then have "\<exists>d. py_min (Fin 3) (rnd (3 / m)) = Fin d \<and> 0 \<le> d \<and> d \<le> 3"
      by (cases "rnd (3 / m)") (auto simp: fle_def py_min_def)
    then show ?thesis using 1 True by simp
  next
    case 2
    then show ?thesis using True by (simp add: py_min_def)
  qed
qed

lemma dosage_adjustment_range:
  assumes "nonneg c"
  shows "\<exists>r. dosage_adjustment c dd = Inr (Fin r) \<and> 0 \<le> r \<and> r \<le> 150"
proof -
  obtain ms where ms: "months_supply c dd = Inr ms" "nonneg ms"
    using months_supply_nonneg[OF assms] by blast
  obtain df d where df: "(if fgt ms (Fin 0) then fdiv (Fin 3) ms else Inr (Fin 3)) = Inr df"
    "py_min (Fin 3) df = Fin d" "0 \<le> d" "d \<le> 3"
    using dose_factor_range[OF ms(2)] by blast
  obtain s where s: "rnd (3 - d) = Fin s" "0 \<le> s" "s \<le> 3"
    using rnd_between[of 0 "3 - d" 3] df(3,4) rnd_0 rnd_3 by auto
  obtain r where r: "rnd (50 * s) = Fin r" "0 \<le> r" "r \<le> 150"
    using rnd_between[of 0 "50 * s" 150] s(2,3) rnd_0 rnd_150 by auto
  show ?thesis
    using ms(1) df(1,2) s(1) r
    by (simp add: dosage_adjustment_def bnd_def fsub_def fneg_def)
qed

lemma rnd_380: "rnd 380 = Fin 380" by (simp add: rnd_numeral)
lemma rnd_520: "rnd 520 = Fin 520" by (simp add: rnd_numeral)
lemma rnd_550: "rnd 550 = Fin 550" by (simp add: rnd_numeral)

lemma rnd_41_4: "rnd (41 / 4) = Fin (41 / 4)"
  by (subst rnd_cert[where e=3 and m="5770237022568448"]) (simp_all add: pow2_def)

lemma margin_37: "fadd (Fin 1) (lit (37 / 100)) = Fin (1542482872374395 / 1125899906842624)"
  by (simp add: lit_def supp_s5 supp_s6)

lemma margin_15: "fadd (Fin 1) (lit (15 / 100)) = Fin (2589569785738035 / 2251799813685248)"
  by (simp add: lit_def dev_d1 dev_d2)



lemma fle_Fin: "fle (Fin a) (Fin b) \<longleftrightarrow> a \<le> b"
  by (auto simp: fle_def)

lemma math_ceil_error: "math_ceil y \<noteq> Inl (ZeroDivisionError m)"
  by (cases y) auto

lemma fadd_380:
  assumes "nonneg z"
  shows "fadd (Fin 380) z = NaN \<or> fle (Fin 380) (fadd (Fin 380) z)"
proof -
  from assms consider "z = NaN" | "z = PInf" | r where "z = Fin r" "0 \<le> r"
    by (auto simp: nonneg_cases)
  then show ?thesis
  proof cases
    case 3
    have "fle (Fin 380) (rnd (380 + r))" using 3(2) rnd_380 by (intro rnd_ge) simp_all
    then show ?thesis using 3 by simp
  qed (simp_all add: fle_def)
qed

lemma fadd_ge_380:
  assumes "a = NaN \<or> fle (Fin 380) a" "0 \<le> r"
  shows "fadd a (Fin r) = NaN \<or> fle (Fin 380) (fadd a (Fin r))"
proof (cases a)
  case (Fin x)
  then have "380 \<le> x" using assms(1) by (simp add: fle_Fin)
  then have "fle (Fin 380) (rnd (x + r))" using assms(2) rnd_380 by (intro rnd_ge) simp_all
  then show ?thesis using Fin by simp
qed (use assms in \<open>auto simp: fle_def\<close>)

lemma supplement_total_cost_ge:
  assumes "nonneg p" "nonneg fx" "nonneg wg" "nonneg c" "nonneg xf"
  shows "\<exists>t. supplement_total_cost p fx wg c dd xf = Inr t \<and> (t = NaN \<or> fle (Fin 380) t)"
proof -
  have bp: "nonneg (fmul (fmul p xf) fx)" using assms by (intro nonneg_fmul)
  have "nonneg (fmul (fmul wg (Fin 32)) fx)"
    using assms by (intro nonneg_fmul) (simp_all add: nonneg_def)
  then obtain wc where wc: "fdiv (fmul (fmul wg (Fin 32)) fx) (Fin 1000) = Inr wc" "nonneg wc"
    using fdiv_pos[of _ 1000] by auto
  have l: "nonneg (lit (14 / 10))" unfolding lit_def by (rule nonneg_rnd) simp
  have z: "nonneg (fmul (lit (14 / 10)) (fadd (fmul (fmul p xf) fx) wc))"
    by (rule nonneg_fmul[OF l nonneg_fadd[OF bp wc(2)]])
  obtain r where r: "dosage_adjustment c dd = Inr (Fin r)" "0 \<le> r"
    using dosage_adjustment_range[OF assms(4)] by blast
  show ?thesis
    using fadd_ge_380[OF fadd_380[OF z] r(2)] wc(1) r(1)
    by (simp add: supplement_total_cost_def bnd_def Let_def)
qed

lemma final_price_raw_37:
  assumes "fle (Fin 380) t"
  shows "fle (Fin 520) (final_price_raw (37 / 100) t)"
proof (cases t)
  case (Fin a)
  then have a: "380 \<le> a" using assms by (simp add: fle_Fin)
  have "520 \<le> 380 * (1542482872374395 / 1125899906842624 :: rat)" by simp
  also have "\<dots> \<le> a * (1542482872374395 / 1125899906842624)" using a by simp
  finally have "fle (Fin 520) (rnd (a * (1542482872374395 / 1125899906842624)))"
    using rnd_520 by (intro rnd_ge)
  then show ?thesis using Fin by (simp add: final_price_raw_def margin_37)
qed (use assms in \<open>auto simp: fle_def final_price_raw_def margin_37 inf_of_sign_def\<close>)

lemma round_up_50_ge:
  assumes "fle (Fin 520) x" "round_up_50 x = Inr f"
  shows "550 \<le> f"
proof (cases x)
  case (Fin a)
  then have a: "520 \<le> a" using assms(1) by (simp add: fle_Fin)
  have "fle (Fin (41 / 4)) (rnd (a / 50))" using a rnd_41_4 by (intro rnd_ge) simp_all
  moreover obtain q where q: "rnd (a / 50) = Fin q" "f = \<lceil>q\<rceil> * 50"
    using assms(2) Fin by (cases "rnd (a / 50)") (auto simp: round_up_50_def bnd_def)
  ultimately have "41 / 4 \<le> q" by (simp add: fle_Fin)
  then have "10 < q" by simp
  then have "(10::int) < \<lceil>q\<rceil>" by (simp add: less_ceiling_iff)
  then show ?thesis using q(2) by simp
qed (use assms in \<open>auto simp: fle_def round_up_50_def bnd_def inf_of_sign_def\<close>)

lemma round_up_50_error:
  "round_up_50 x \<noteq> Inl (ZeroDivisionError m)"
  using math_ceil_error
  by (cases x) (auto simp: round_up_50_def bnd_def inf_of_sign_def split: sum.splits)

lemma py_round_error: "py_round a nd \<noteq> Inl (ZeroDivisionError m)"
  by (auto simp: py_round_def split: pyfloat.splits)

lemma float_of_int_error: "float_of_int n \<noteq> Inl (ZeroDivisionError m)"
  by (auto simp: float_of_int_def split: pyfloat.splits)

lemma float_of_int_ge:
  assumes "rnd c = Fin c" "c \<le> of_int n" "float_of_int n = Inr f"
  shows "\<exists>y. f = Fin y \<and> c \<le> y"
proof -
  have "fle (Fin c) (rnd (of_int n))" using assms(1,2) by (intro rnd_ge)
  then show ?thesis using assms(3)
    by (cases "rnd (of_int n)") (auto simp: float_of_int_def fle_Fin)
qed

lemma fdiv_nonzero: "y \<noteq> 0 \<Longrightarrow> \<exists>r. fdiv a (Fin y) = Inr r"
  by (cases a) auto

lemma make_breakdown_error:
  assumes "1 \<le> final"
  shows "make_breakdown base t final \<noteq> Inl (ZeroDivisionError m)"
proof
  assume zde: "make_breakdown base t final = Inl (ZeroDivisionError m)"
  show False
  proof (cases "float_of_int final")
    case (Inl e)
    then show ?thesis using zde py_round_error float_of_int_error[of final m]
      by (auto simp: make_breakdown_def bnd_def split: sum.splits)
  next
    case (Inr fp)
    have "(1::rat) \<le> of_int final" using assms by simp
    then obtain y where y: "fp = Fin y" "1 \<le> y"
      using float_of_int_ge[OF rnd_1 _ Inr] by blast
    then have "y \<noteq> 0" by simp
    then obtain r where "fdiv (fsub fp t) fp = Inr r"
      using fdiv_nonzero[of y "fsub fp t"] y(1) by auto
    then show ?thesis using zde Inr py_round_error
      by (auto simp: make_breakdown_def bnd_def split: sum.splits)
  qed
qed

lemma make_breakdown_finalPrice:
  "make_breakdown base t final = Inr b \<Longrightarrow> finalPrice b = final"
  by (auto simp: make_breakdown_def bnd_def split: sum.splits)

lemma multiplier_error: "multiplier name key \<noteq> Inl (ZeroDivisionError m)"
proof (cases "map_of MULTIPLIERS name")
  case None then show ?thesis by (simp add: multiplier_def)
next
  case (Some t)
  show ?thesis
  proof (cases key)
    case None then show ?thesis using Some by (simp add: multiplier_def)
  next
    case (Some v)
    then show ?thesis using \<open>map_of MULTIPLIERS name = Some t\<close>
      by (cases v) (simp_all add: multiplier_def)
  qed
qed

lemma nonneg_lit: "0 \<le> x \<Longrightarrow> nonneg (lit x)"
  unfolding lit_def by (rule nonneg_rnd)

lemma nonneg_Fin_1: "nonneg (Fin 1)"
  by (simp add: nonneg_def)

lemma table_values_nonneg:
  assumes "map_of MULTIPLIERS name = Some t" "map_of t s = Some v"
  shows "nonneg v"
proof -
  have "\<forall>(n, tb) \<in> set MULTIPLIERS. \<forall>(k, w) \<in> set tb. nonneg w"
    by (simp add: MULTIPLIERS_def nonneg_lit nonneg_Fin_1)
  moreover have "(name, t) \<in> set MULTIPLIERS" using assms(1) by (rule map_of_SomeD)
  moreover have "(s, v) \<in> set t" using assms(2) by (rule map_of_SomeD)
  ultimately show ?thesis by blast
qed

lemma multiplier_nonneg:
  assumes "multiplier name key = Inr v"
  shows "nonneg v"
proof (cases "map_of MULTIPLIERS name")
  case None then show ?thesis using assms by (simp add: multiplier_def)
next
  case (Some t)
  show ?thesis
  proof (cases key)
    case None then show ?thesis using Some assms by (auto simp: multiplier_def nonneg_Fin_1)
  next
    case k: (Some w)
    show ?thesis
    proof (cases w)
      case (JStr s)
      then show ?thesis using Some k assms table_values_nonneg[OF Some, of s]
        by (auto simp: multiplier_def nonneg_Fin_1 split: option.splits)
    qed (use Some k assms in \<open>auto simp: multiplier_def nonneg_Fin_1\<close>)
  qed
qed

lemma bnd_Inr: "m = Inr x \<Longrightarrow> bnd m f = f x"
  by (simp add: bnd_def)

lemma supplement_costs_cases:
  assumes "validate_supplement_inputs d = Inr True"
  shows "(\<exists>e. supplement_costs d = Inl e \<and> (\<forall>m. e \<noteq> ZeroDivisionError m))
       \<or> (\<exists>base t. supplement_costs d = Inr (base, t) \<and> (t = NaN \<or> fle (Fin 380) t))"
proof -
  note v = assms[unfolded validate_supplement_inputs_def]
  obtain p where p: "py_float (dict_get d ''purchasePrice'' (JInt 0)) = Inr p" "nonneg p"
    using validated_get[OF v, of "''purchasePrice''"] by auto
  obtain fx where fx: "py_float (dict_get d ''fxRate'' (JInt 50)) = Inr fx" "nonneg fx"
    using validated_get[OF v, of "''fxRate''"] by auto
  obtain wg where wg: "py_float (dict_get d ''weightGrams'' (JInt 0)) = Inr wg" "nonneg wg"
    using validated_get[OF v, of "''weightGrams''"] by auto
  obtain c where c: "py_float (dict_get d ''count'' (JInt 0)) = Inr c" "nonneg c"
    using validated_get[OF v, of "''count''"] by auto
  obtain dd where dd: "py_float (dict_get d ''dailyDose'' (JInt 1)) = Inr dd" "nonneg dd"
    using validated_get[OF v, of "''dailyDose''"] by auto
  define m1 where "m1 = multiplier ''productShape'' (map_of d ''productShape'')"
  define m2 where "m2 = multiplier ''packingMaterial'' (map_of d ''packingMaterial'')"
  define m3 where "m3 = multiplier ''bottleSize'' (map_of d ''bottleSize'')"
  define m4 where "m4 = multiplier ''maleSupport'' (map_of d ''isMaleSupport'')"
  define m5 where "m5 = multiplier ''importOrigin'' (map_of d ''importFrom'')"
  have sc: "supplement_costs d =
     bnd m1 (\<lambda>shapeMult. bnd m2 (\<lambda>packMult. bnd m3 (\<lambda>sizeMult. bnd m4 (\<lambda>maleMult. bnd m5 (\<lambda>originMult.
     bnd (supplement_total_cost p fx wg c dd
            (fmul (fmul (fmul (fmul shapeMult packMult) sizeMult) maleMult) originMult))
         (\<lambda>total_cost. Inr (fmul p fx, total_cost)))))))"
    by (simp add: supplement_costs_def bnd_Inr[OF p(1)] bnd_Inr[OF fx(1)] bnd_Inr[OF wg(1)]
          bnd_Inr[OF c(1)] bnd_Inr[OF dd(1)] m1_def m2_def m3_def m4_def m5_def Let_def)
  have e: "\<And>e m. m1 = Inl e \<or> m2 = Inl e \<or> m3 = Inl e \<or> m4 = Inl e \<or> m5 = Inl e
              \<Longrightarrow> e \<noteq> ZeroDivisionError m"
    using multiplier_error unfolding m1_def m2_def m3_def m4_def m5_def by metis
  show ?thesis
  proof (cases "\<exists>a1 a2 a3 a4 a5. m1 = Inr a1 \<and> m2 = Inr a2 \<and> m3 = Inr a3 \<and> m4 = Inr a4 \<and> m5 = Inr a5")
    case True
    then obtain a1 a2 a3 a4 a5 where a: "m1 = Inr a1" "m2 = Inr a2" "m3 = Inr a3" "m4 = Inr a4" "m5 = Inr a5"
      by blast
    have n: "nonneg a1" "nonneg a2" "nonneg a3" "nonneg a4" "nonneg a5"
      using a multiplier_nonneg unfolding m1_def m2_def m3_def m4_def m5_def by blast+
    have xf: "nonneg (fmul (fmul (fmul (fmul a1 a2) a3) a4) a5)"
      using n by (intro nonneg_fmul)
    obtain t where t: "supplement_total_cost p fx wg c dd (fmul (fmul (fmul (fmul a1 a2) a3) a4) a5) = Inr t"
      "t = NaN \<or> fle (Fin 380) t"
      using supplement_total_cost_ge[OF p(2) fx(2) wg(2) c(2) xf] by blast
    have "supplement_costs d = Inr (fmul p fx, t)"
      by (simp add: sc a t(1) bnd_def)
    then show ?thesis using t(2) by blast
  next
    case False
    then obtain e' where "supplement_costs d = Inl e'"
      "m1 = Inl e' \<or> m2 = Inl e' \<or> m3 = Inl e' \<or> m4 = Inl e' \<or> m5 = Inl e'"
      unfolding sc by (cases m1; cases m2; cases m3; cases m4; cases m5) (auto simp: bnd_def)
    then show ?thesis using e by blast
  qed
qed

section \<open>The supplement formula on validated inputs\<close>

lemma float_of_string_nan: "float_of_string ''nan'' = Some NaN"
  by (simp add: float_of_string_def strip_def parse_abs_def lower_def is_space_def is_digit_def)

lemma float_of_string_inf: "float_of_string ''inf'' = Some PInf"
  by (simp add: float_of_string_def strip_def parse_abs_def lower_def is_space_def is_digit_def)

lemma supplement_example_validated: "validate_supplement_inputs supplement_example = Inr True"
  by (simp add: validate_supplement_inputs_def supplement_example_def float_of_int_def rnd_numeral)

lemma supplement_example_costs:
  "supplement_costs supplement_example = Inr (Fin 500, Fin (1261359739384627 / 1099511627776))"
  by (simp add: supplement_example_def supplement_costs_def multiplier_def MULTIPLIERS_def
        dict_get_def bnd_def float_of_int_def rnd_numeral rnd_1 supplement_example_total)

lemma supplement_example_result:
  "calculate_supplement_price supplement_example =
     Inr \<lparr>baseCost = Fin 500, totalCost = Fin 1147, finalPrice = 1600, profit = Fin 453,
          margin = lit (283 / 10)\<rparr>"
  by (simp add: calculate_supplement_price_def supplement_example_costs price_breakdown_def bnd_def
        supplement_example_price supplement_example_breakdown)

lemma price_breakdown_37:
  assumes "t = NaN \<or> fle (Fin 380) t"
  shows "(\<forall>b. price_breakdown (37 / 100) base t = Inr b \<longrightarrow> 550 \<le> finalPrice b)
       \<and> (\<forall>m. price_breakdown (37 / 100) base t \<noteq> Inl (ZeroDivisionError m))"
proof (cases "t = NaN")
  case True
  then show ?thesis
    by (simp add: price_breakdown_def final_price_raw_def round_up_50_def bnd_def)
next
  case False
  then have raw: "fle (Fin 520) (final_price_raw (37 / 100) t)"
    using assms final_price_raw_37 by blast
  show ?thesis
  proof (cases "round_up_50 (final_price_raw (37 / 100) t)")
    case (Inl e)
    then show ?thesis using round_up_50_error[of "final_price_raw (37 / 100) t"]
      by (auto simp: price_breakdown_def bnd_def)
  next
    case (Inr f)
    have f: "550 \<le> f" by (rule round_up_50_ge[OF raw Inr])
    then have "1 \<le> f" by simp
    then show ?thesis using Inr f make_breakdown_error[of f base t] make_breakdown_finalPrice[of base t f]
      by (auto simp: price_breakdown_def bnd_def)
  qed
qed

text \<open>
  C9, amended: for every validated supplement input the unrounded \<^verbatim>\<open>total_cost\<close> is a
  NaN or at least 380 (possibly infinite); whenever the formula returns a breakdown its
  finalPrice is at least 550; and the formula never raises ZeroDivisionError, so the
  margin division never divides by zero.
\<close>

theorem supplement_total_at_least_380:
  assumes "validate_supplement_inputs d = Inr True"
  shows "(\<forall>base t. supplement_costs d = Inr (base, t) \<longrightarrow> t = NaN \<or> fle (Fin 380) t)
       \<and> (\<forall>b. calculate_supplement_price d = Inr b \<longrightarrow> 550 \<le> finalPrice b)
       \<and> (\<forall>m. calculate_supplement_price d \<noteq> Inl (ZeroDivisionError m))"
proof -
  from supplement_costs_cases[OF assms]
  consider e where "supplement_costs d = Inl e" "\<forall>m. e \<noteq> ZeroDivisionError m"
    | base t where "supplement_costs d = Inr (base, t)" "t = NaN \<or> fle (Fin 380) t"
    by blast
  then show ?thesis
  proof cases
    case 1
    then show ?thesis by (simp add: calculate_supplement_price_def bnd_def)
  next
    case 2
    then show ?thesis using price_breakdown_37[OF 2(2), of base]
      by (simp add: calculate_supplement_price_def bnd_def)
  qed
qed

theorem supplement_total_at_least_380_witness:
  "validate_supplement_inputs supplement_example = Inr True
   \<and> supplement_costs supplement_example = Inr (Fin 500, Fin (1261359739384627 / 1099511627776))
   \<and> fle (Fin 380) (Fin (1261359739384627 / 1099511627776))
   \<and> (\<exists>b. calculate_supplement_price supplement_example = Inr b \<and> 550 \<le> finalPrice b)"
  using supplement_total_at_least_380[OF supplement_example_validated]
  by (simp add: supplement_example_validated supplement_example_costs supplement_example_result)

text \<open>
  C9, as stated, fails on a NaN: the string \<^verbatim>\<open>nan\<close> passes the validator
  (\<^verbatim>\<open>nan < 0\<close> is false), \<^verbatim>\<open>total_cost\<close> is a NaN, which is not at least 380, and
  \<^verbatim>\<open>math.ceil\<close> raises before any finalPrice exists.
\<close>

theorem nan_total_cost:
  "validate_supplement_inputs nan_supplement = Inr True
   \<and> supplement_costs nan_supplement = Inr (NaN, NaN)
   \<and> \<not> fle (Fin 380) NaN
   \<and> calculate_supplement_price nan_supplement
       = Inl (ValueError ''cannot convert float NaN to integer'')"
  by (simp add: nan_supplement_def supplement_example_def validate_supplement_inputs_def
        float_of_string_nan float_of_int_def rnd_numeral rnd_1 rnd_0 fle_def
        calculate_supplement_price_def supplement_costs_def multiplier_def MULTIPLIERS_def dict_get_def
        bnd_def supplement_total_cost_def dosage_adjustment_def months_supply_def days_supply_def
        fgt_def py_min_def fsub_def fneg_def lit_def supp_s1 Let_def
        price_breakdown_def final_price_raw_def round_up_50_def)

section \<open>The grid of floats and the rounding of the price\<close>

lemma bexp_ge: "- 1022 \<le> bexp x"
  by (simp add: bexp_def)

lemma bexp_eqI:
  assumes "0 < y" "y < pow2 (e + 1)" "- 1022 \<le> e" "pow2 e \<le> y \<or> e = - 1022"
  shows "bexp y = e"
proof (cases "pow2 e \<le> y")
  case True
  then show ?thesis using flog2_unique[OF True assms(2)] assms(3) by (simp add: bexp_def)
next
  case False
  then have e: "e = - 1022" using assms(4) by simp
  have "pow2 (flog2 y) \<le> y" using flog2_bounds[OF assms(1)] by simp
  then have "pow2 (flog2 y) < pow2 (e + 1)" using assms(2) by linarith
  then have "flog2 y \<le> e" by (simp add: pow2_less_iff)
  then show ?thesis using e by (simp add: bexp_def)
qed

lemma rpos_grid:
  assumes "0 < x" "0 < rpos x"
  shows "\<exists>m. rpos x = of_int m * ulp (rpos x)"
proof -
  define M where "M = round_half_even (x / ulp x)"
  have y: "rpos x = of_int M * ulp x" by (simp add: rpos_def M_def)
  have "x / ulp x \<le> of_int (2 ^ 53)"
    using below_next_binade[OF assms(1)] ulp_pos[of x] pow2_53_ulp[of x]
    by (simp add: pos_divide_le_eq)
  then have M53: "M \<le> 2 ^ 53" unfolding M_def by (rule rhe_le_int)
  show ?thesis
  proof (cases "M = 2 ^ 53")
    case True
    then have v: "rpos x = pow2 (bexp x + 1)" using y pow2_53_ulp[of x] by simp
    have "flog2 (rpos x) = bexp x + 1"
      unfolding v by (rule flog2_unique) (simp_all add: pow2_less_iff)
    then have "bexp (rpos x) = bexp x + 1" using bexp_ge[of x] by (simp add: bexp_def)
    then have "of_int (2 ^ 52) * ulp (rpos x) = pow2 (bexp x + 1)"
      using pow2_52_ulp[of "rpos x"] by simp
    then show ?thesis using v by metis
  next
    case False
    then have "M + 1 \<le> 2 ^ 53" using M53 by simp
    then have "(of_int (M + 1) :: rat) \<le> of_int (2 ^ 53)" by (simp only: of_int_le_iff)
    then have "of_int (M + 1) * ulp x \<le> of_int (2 ^ 53) * ulp x"
      using ulp_pos[of x] by (rule_tac mult_right_mono) simp_all
    then have "rpos x + ulp x \<le> pow2 (bexp x + 1)"
      unfolding pow2_53_ulp y by (simp add: algebra_simps)
    then have lt: "rpos x < pow2 (bexp x + 1)" using ulp_pos[of x] by linarith
    have "pow2 (bexp x) \<le> rpos x \<or> bexp x = - 1022"
    proof (cases "- 1022 \<le> flog2 x")
      case True then show ?thesis using rpos_ge_binade[OF assms(1)] by simp
    next
      case False then show ?thesis by (simp add: bexp_def)
    qed
    then have "bexp (rpos x) = bexp x"
      using bexp_eqI[OF assms(2) lt bexp_ge] by simp
    then have "ulp (rpos x) = ulp x" by (simp add: ulp_def)
    then show ?thesis using y by metis
  qed
qed

lemma rpos_fix:
  assumes "y = of_int m * ulp y"
  shows "rpos y = y"
proof -
  have "y / ulp y = of_int m" using assms ulp_pos[of y]
    by (metis nonzero_eq_divide_eq less_irrefl)
  then show ?thesis using assms by (simp add: rpos_def rhe_of_int)
qed

lemma rnd_idem:
  assumes "rnd z = Fin a"
  shows "rnd a = Fin a"
proof -
  have pos: "rnd a = Fin a" if z: "0 < z" "rnd z = Fin a" for z a
  proof -
    have a: "a = rpos z" "rpos z < pow2 1024"
      using z by (auto simp: rnd_pos split: if_splits)
    show ?thesis
    proof (cases "a = 0")
      case True then show ?thesis by (simp add: rnd_0)
    next
      case False
      then have apos: "0 < a" using a(1) rpos_nonneg[of z] z(1) by simp
      then obtain m where "a = of_int m * ulp a" using rpos_grid[OF z(1)] a(1) by auto
      then have "rpos a = a" by (rule rpos_fix)
      then show ?thesis using apos a by (simp add: rnd_pos)
    qed
  qed
  consider "z = 0" | "0 < z" | "z < 0" by linarith
  then show ?thesis
  proof cases
    case 1 then show ?thesis using assms by (simp add: rnd_0)
  next
    case 2 then show ?thesis using pos assms by blast
  next
    case 3
    have "rnd (- z) = Fin (- a)" using assms rnd_minus[of z] by (simp add: fneg_def)
    then have "rnd (- a) = Fin (- a)" using pos[of "- z" "- a"] 3 by simp
    then show ?thesis using rnd_minus[of "- a"] by (simp add: fneg_def)
  qed
qed

lemma double_grid:
  assumes "rnd x = Fin x" "0 < x"
  shows "\<exists>m. x = of_int m * ulp x"
proof -
  have "rpos x = x" using assms by (auto simp: rnd_pos split: if_splits)
  then show ?thesis using rpos_grid[OF assms(2)] assms(2) by simp
qed

lemma pow2_nat: "0 \<le> j \<Longrightarrow> pow2 j = of_int (2 ^ nat j)"
  by (simp add: pow2_def)

lemma flog2_pow2: "flog2 (pow2 n) = n"
  by (rule flog2_unique) (simp_all add: pow2_less_iff)

lemma double_gap:
  assumes "rnd x = Fin x" "rnd y = Fin y" "0 < y" "y < x"
  shows "ulp y \<le> x - y"
proof -
  have xpos: "0 < x" using assms(3,4) by linarith
  obtain mx where mx: "x = of_int mx * ulp x" using double_grid[OF assms(1) xpos] by blast
  obtain my where my: "y = of_int my * ulp y" using double_grid[OF assms(2,3)] by blast
  have le: "bexp y \<le> bexp x" using bexp_mono[OF assms(3)] assms(4) by simp
  define j where "j = nat (bexp x - bexp y)"
  define uy where "uy = ulp y"
  have uypos: "0 < uy" by (simp add: uy_def ulp_pos)
  have "ulp x = pow2 (bexp x - bexp y) * ulp y"
    unfolding ulp_def pow2_add[symmetric] by (simp add: algebra_simps)
  then have ux: "ulp x = of_int (2 ^ j) * uy"
    using le by (simp add: pow2_nat j_def uy_def)
  have x': "x = of_int mx * (of_int (2 ^ j) * uy)" using mx ux by simp
  have y': "y = of_int my * uy" using my by (simp add: uy_def)
  have d: "x - y = of_int (mx * 2 ^ j - my) * uy"
    unfolding x' y' by (simp add: algebra_simps)
  moreover have "0 < x - y" using assms(4) by simp
  ultimately have "0 < (of_int (mx * 2 ^ j - my) :: rat)"
    using uypos by (simp add: zero_less_mult_iff)
  then have "0 < mx * 2 ^ j - my" by (simp only: of_int_0_less_iff)
  then have "1 \<le> mx * 2 ^ j - my" by linarith
  then have "(1::rat) \<le> of_int (mx * 2 ^ j - my)" by (simp only: of_int_1_le_iff)
  then have "1 * uy \<le> of_int (mx * 2 ^ j - my) * uy"
    using uypos by (rule_tac mult_right_mono) simp_all
  then show ?thesis using d by (simp add: uy_def)
qed

lemma rnd_above_int:
  fixes k :: int
  assumes "1 \<le> k" "k < 2 ^ 53" "of_int k + 16 / 25 * ulp (of_int k) \<le> z"
  shows "of_int k < rpos z"
proof -
  define K :: rat where "K = of_int k"
  define e where "e = flog2 K"
  have Kpos: "0 < K" using assms(1) by (simp add: K_def)
  have b: "pow2 e \<le> K" "K < pow2 (e + 1)" using flog2_bounds[OF Kpos] by (simp_all add: e_def)
  have "pow2 0 \<le> K" using assms(1) by (simp add: pow2_def K_def)
  then have "pow2 0 < pow2 (e + 1)" using b(2) by linarith
  then have e0: "0 \<le> e" by (simp add: pow2_less_iff)
  have "K < pow2 53" using assms(2) by (simp add: K_def pow2_def)
  then have "pow2 e < pow2 53" using b(1) by linarith
  then have e52: "e \<le> 52" by (simp add: pow2_less_iff)
  have bK: "bexp K = e" using e0 by (simp add: bexp_def e_def)
  define u where "u = ulp K"
  have u: "u = pow2 (e - 52)" by (simp add: u_def ulp_def bK)
  have upos: "0 < u" by (simp add: u_def ulp_pos)
  have uinv: "u * of_int (2 ^ nat (52 - e)) = 1"
  proof -
    have "pow2 (e - 52) * pow2 (52 - e) = 1" unfolding pow2_add[symmetric] by (simp add: pow2_def)
    then show ?thesis using e52 by (simp add: u pow2_nat)
  qed
  define N where "N = k * 2 ^ nat (52 - e)"
  have KN: "K = of_int N * u"
  proof -
    have "of_int N * u = of_int k * (of_int (2 ^ nat (52 - e)) * u)"
      unfolding N_def by (simp only: of_int_mult mult.assoc)
    also have "of_int (2 ^ nat (52 - e)) * u = 1" using uinv by (simp only: mult.commute)
    finally show ?thesis by (simp add: K_def)
  qed
  have p53: "pow2 (e + 1) = of_int (2 ^ 53) * u"
    using pow2_53_ulp[of K] by (simp add: bK u_def)
  have "of_int N * u < of_int (2 ^ 53) * u" using b(2) KN p53 by simp
  then have "(of_int N :: rat) < of_int (2 ^ 53)" using upos by (simp add: mult_less_cancel_right)
  then have "N < 2 ^ 53" by (simp only: of_int_less_iff)
  then have "N + 1 \<le> 2 ^ 53" by simp
  then have "(of_int (N + 1) :: rat) \<le> of_int (2 ^ 53)" by (simp only: of_int_le_iff)
  then have "of_int (N + 1) * u \<le> of_int (2 ^ 53) * u"
    using upos by (rule_tac mult_right_mono) simp_all
  then have Ku: "K + u \<le> pow2 (e + 1)" unfolding p53 KN by (simp add: algebra_simps)
  define w where "w = K + 16 / 25 * u"
  have wpos: "0 < w" using Kpos upos by (simp add: w_def add_pos_pos)
  have w1: "pow2 e \<le> w" using b(1) upos by (simp add: w_def add_increasing2)
  have w2: "w < pow2 (e + 1)" using Ku upos by (simp add: w_def)
  have bw: "bexp w = e" using bexp_eqI[OF wpos w2] w1 e0 by simp
  have uw: "ulp w = u" by (simp add: ulp_def bw u)
  have "w / u = of_int N + 16 / 25" using upos by (simp add: w_def KN field_simps)
  then have "round_half_even (w / u) = N + 1" by (intro rhe_eqI) simp
  then have "rpos w = of_int (N + 1) * u" by (simp add: rpos_def uw)
  then have rw: "rpos w = K + u" by (simp add: KN algebra_simps)
  have "w \<le> z" using assms(3) by (simp add: w_def K_def u_def)
  then have "rpos w \<le> rpos z" using wpos by (rule rpos_mono[rotated])
  then show ?thesis using rw upos by (simp add: K_def)
qed

lemma ulp_50:
  fixes K :: rat
  assumes "1 \<le> K"
  shows "32 * ulp K \<le> ulp (50 * K)"
proof -
  have Kpos: "0 < K" using assms by linarith
  define e where "e = flog2 K"
  have b: "pow2 e \<le> K" using flog2_bounds[OF Kpos] by (simp add: e_def)
  have "pow2 0 \<le> K" using assms by (simp add: pow2_def)
  then have "flog2 (pow2 0) \<le> flog2 K" by (intro flog2_mono) (simp_all add: pow2_pos)
  then have e0: "0 \<le> e" by (simp add: flog2_pow2 e_def)
  have bK: "bexp K = e" using e0 by (simp add: bexp_def e_def)
  have p5: "pow2 5 = 32" by (simp add: pow2_def)
  have "pow2 (e + 5) = 32 * pow2 e" unfolding pow2_add p5 by simp
  then have "pow2 (e + 5) \<le> 50 * K" using b Kpos by linarith
  then have "flog2 (pow2 (e + 5)) \<le> flog2 (50 * K)" by (intro flog2_mono) (simp_all add: pow2_pos)
  then have "e + 5 \<le> bexp (50 * K)" by (simp add: flog2_pow2 bexp_def)
  then have "pow2 (e + 5 - 52) \<le> ulp (50 * K)" by (simp add: ulp_def pow2_le_iff)
  moreover have "pow2 (e + 5 - 52) = 32 * pow2 (e - 52)"
  proof -
    have "pow2 (e + 5 - 52) = pow2 5 * pow2 (e - 52)"
      unfolding pow2_add[symmetric] by (simp add: algebra_simps)
    then show ?thesis by (simp add: p5)
  qed
  ultimately show ?thesis by (simp add: ulp_def bK)
qed

lemma ceil_div_50:
  assumes "rnd x = Fin x" "0 < x" "x \<le> 2 ^ 53" "rnd (x / 50) = Fin q" "0 < q"
  shows "\<lceil>q\<rceil> = \<lceil>x / 50\<rceil>"
proof -
  define k where "k = \<lceil>x / 50\<rceil> - 1"
  have k1: "of_int k < x / 50" and k2: "x / 50 \<le> of_int k + 1"
    using ceiling_correct[of "x / 50"] by (simp_all add: k_def)
  have "0 < \<lceil>x / 50\<rceil>" using assms(2) by simp
  then have k0: "0 \<le> k" by (simp add: k_def)
  have "of_int k < (of_int (2 ^ 53) :: rat)" using k1 assms(2,3) by simp
  then have k53: "k < 2 ^ 53" by (simp only: of_int_less_iff)
  have x50: "0 < x / 50" using assms(2) by simp
  have q: "q = rpos (x / 50)" using assms(4) x50 by (auto simp: rnd_pos split: if_splits)
  have "rnd (of_int (k + 1)) = Fin (of_int (k + 1))" using k0 k53 by (intro rnd_int) simp
  moreover have "x / 50 \<le> of_int (k + 1)" using k2 by simp
  ultimately have "fle (rnd (x / 50)) (Fin (of_int (k + 1)))" by (intro rnd_le)
  then have up: "q \<le> of_int (k + 1)" using assms(4) by (simp add: fle_Fin)
  have lo: "of_int k < q"
  proof (cases "k = 0")
    case True then show ?thesis using assms(5) by simp
  next
    case False
    then have k1': "1 \<le> k" using k0 by simp
    define y :: rat where "y = of_int (50 * k)"
    have yx: "y < x" using k1 by (simp add: y_def)
    have ypos: "0 < y" using k1' by (simp add: y_def)
    have "y < of_int (2 ^ 53)" using yx assms(3) by simp
    then have "50 * k < 2 ^ 53" unfolding y_def by (simp only: of_int_less_iff)
    then have ry: "rnd y = Fin y" unfolding y_def using k1' by (intro rnd_int) simp
    have gap: "ulp y \<le> x - y" by (rule double_gap[OF assms(1) ry ypos yx])
    have "32 * ulp (of_int k) \<le> ulp (50 * of_int k)" using k1' by (intro ulp_50) simp
    then have "32 * ulp (of_int k) \<le> x - y" using gap by (simp add: y_def)
    then have "of_int k + 16 / 25 * ulp (of_int k) \<le> x / 50" by (simp add: y_def)
    then show ?thesis unfolding q using k1' k53 by (intro rnd_above_int)
  qed
  have "\<lceil>q\<rceil> = k + 1" using lo up by (intro ceiling_unique) simp_all
  then show ?thesis by (simp add: k_def)
qed

lemma make_breakdown_fields:
  assumes "make_breakdown base t f = Inr b"
  shows "finalPrice b = f" "py_round t 0 = Inr (totalCost b)" "f \<noteq> 0"
proof -
  show "finalPrice b = f" "py_round t 0 = Inr (totalCost b)"
    using assms by (auto simp: make_breakdown_def bnd_def split: sum.splits)
  show "f \<noteq> 0"
  proof
    assume "f = 0"
    then show False using assms
      by (auto simp: make_breakdown_def bnd_def float_of_int_def rnd_0 split: sum.splits)
  qed
qed

lemma price_breakdown_smallest:
  assumes "rnd a = Fin a" "0 \<le> a" "fadd (Fin 1) (lit mp) = Fin c" "1 \<le> c"
    and "final_price_raw mp (Fin a) = Fin x" "x \<le> 2 ^ 53"
    and "price_breakdown mp base (Fin a) = Inr b"
  shows "finalPrice b = 50 * \<lceil>x / 50\<rceil> \<and> finalPrice b mod 50 = 0
       \<and> fle (totalCost b) (Fin (of_int (finalPrice b)))"
proof -
  have xr: "rnd (a * c) = Fin x" using assms(3,5) by (simp add: final_price_raw_def)
  then have dx: "rnd x = Fin x" by (rule rnd_idem)
  have "a \<le> a * c" using assms(2,4) by (simp add: mult_le_cancel_left1)
  then have "fle (Fin a) (rnd (a * c))" using assms(1) by (intro rnd_ge)
  then have ax: "a \<le> x" using xr by (simp add: fle_Fin)
  obtain f where f: "round_up_50 (Fin x) = Inr f" "make_breakdown base (Fin a) f = Inr b"
    using assms(7) unfolding price_breakdown_def assms(5) by (auto simp: bnd_def split: sum.splits)
  obtain q where q: "rnd (x / 50) = Fin q" "f = \<lceil>q\<rceil> * 50"
    using f(1) by (cases "rnd (x / 50)") (auto simp: round_up_50_def bnd_def)
  note mb = make_breakdown_fields[OF f(2)]
  have x0: "0 \<le> x" using ax assms(2) by linarith
  have "fle (Fin 0) (rnd (x / 50))" using x0 by (intro rnd_nonneg) simp
  then have q0: "0 \<le> q" using q(1) by (simp add: fle_Fin)
  have "\<lceil>q\<rceil> \<noteq> 0" using mb(3) q(2) by simp
  then have "q \<noteq> 0" by auto
  then have qpos: "0 < q" using q0 by simp
  have "x \<noteq> 0" using q(1) \<open>q \<noteq> 0\<close> by (auto simp: rnd_0)
  then have xpos: "0 < x" using x0 by simp
  have c: "\<lceil>q\<rceil> = \<lceil>x / 50\<rceil>" by (rule ceil_div_50[OF dx xpos assms(6) q(1) qpos])
  have fp: "finalPrice b = 50 * \<lceil>x / 50\<rceil>" using mb(1) q(2) c by simp
  have "x \<le> 50 * of_int \<lceil>x / 50\<rceil>" using le_of_int_ceiling[of "x / 50"] by linarith
  then have xf: "x \<le> of_int (finalPrice b)" unfolding fp by simp
  define r where "r = round_half_even a"
  have r0: "0 \<le> r" unfolding r_def using assms(2) by (rule rhe_nonneg)
  have "a \<le> of_int (finalPrice b)" using ax xf by linarith
  then have rf: "r \<le> finalPrice b" unfolding r_def by (rule rhe_le_int)
  have "a \<le> of_int (2 ^ 53)" using ax assms(6) by simp
  then have "r \<le> 2 ^ 53" unfolding r_def by (rule rhe_le_int)
  then have "rnd (of_int r) = Fin (of_int r)" using r0 by (intro rnd_int) simp
  then have "totalCost b = Fin (of_int r)" using mb(2) by (simp add: py_round_def r_def)
  then have "fle (totalCost b) (Fin (of_int (finalPrice b)))" using rf by (simp add: fle_Fin)
  then show ?thesis using fp by simp
qed

lemma rpos_rel:
  fixes y :: rat
  assumes "1 \<le> y"
  shows "31 / 32 * y \<le> rpos y"
proof -
  have ypos: "0 < y" using assms by linarith
  have "pow2 0 \<le> y" using assms by (simp add: pow2_def)
  then have "flog2 (pow2 0) \<le> flog2 y" by (intro flog2_mono) (simp_all add: pow2_pos)
  then have e0: "0 \<le> flog2 y" by (simp add: flog2_pow2)
  then have bxy: "bexp y = flog2 y" by (simp add: bexp_def)
  define u where "u = ulp y"
  have upos: "0 < u" by (simp add: u_def ulp_pos)
  have "pow2 (bexp y) \<le> y" using flog2_bounds[OF ypos] bxy by simp
  then have uy: "of_int (2 ^ 52) * u \<le> y" using pow2_52_ulp[of y] by (simp add: u_def)
  have "y / u - 1 / 2 \<le> of_int (round_half_even (y / u))" by (rule rhe_bounds(2))
  then have "(y / u - 1 / 2) * u \<le> of_int (round_half_even (y / u)) * u"
    using upos by (rule_tac mult_right_mono) simp_all
  then have "y - u / 2 \<le> rpos y" using upos by (simp add: rpos_def u_def field_simps)
  moreover have "u \<le> y / 16" using uy ypos upos by simp
  ultimately show ?thesis by linarith
qed

lemma rnd_rel:
  fixes y :: rat
  assumes "1 \<le> y" "rnd y = Fin x"
  shows "31 / 32 * y \<le> x"
proof -
  have "0 < y" using assms(1) by linarith
  then have "x = rpos y" using assms(2) by (auto simp: rnd_pos split: if_splits)
  then show ?thesis using rpos_rel[OF assms(1)] by simp
qed

lemma rhe_double:
  assumes "rnd a = Fin a" "0 \<le> a"
  shows "rnd (of_int (round_half_even a)) = Fin (of_int (round_half_even a))"
proof (cases "a \<le> 2 ^ 53")
  case True
  have "0 \<le> round_half_even a" using assms(2) by (rule rhe_nonneg)
  moreover have "a \<le> of_int (2 ^ 53)" using True by simp
  then have "round_half_even a \<le> 2 ^ 53" by (rule rhe_le_int)
  ultimately show ?thesis by (intro rnd_int) simp
next
  case False
  then have big: "pow2 53 \<le> a" by (simp add: pow2_def)
  then have apos: "0 < a" using pow2_pos[of 53] by linarith
  obtain m where m: "a = of_int m * ulp a" using double_grid[OF assms(1) apos] by blast
  have "flog2 (pow2 53) \<le> flog2 a" using big by (intro flog2_mono) (simp_all add: pow2_pos)
  then have "53 \<le> flog2 a" by (simp add: flog2_pow2)
  then have "53 \<le> bexp a" by (simp add: bexp_def)
  then have "ulp a = of_int (2 ^ nat (bexp a - 52))" by (simp add: ulp_def pow2_nat)
  then have "a = of_int (m * 2 ^ nat (bexp a - 52))" using m by simp
  then obtain n where n: "a = of_int n" by blast
  show ?thesis using assms(1) unfolding n rhe_of_int .
qed

lemma price_breakdown_total_le:
  assumes "rnd a = Fin a" "0 \<le> a" "fadd (Fin 1) (lit mp) = Fin c" "9 / 8 \<le> c"
    and "price_breakdown mp base (Fin a) = Inr b"
  shows "finalPrice b mod 50 = 0 \<and> fle (totalCost b) (Fin (of_int (finalPrice b)))"
proof -
  have raw: "final_price_raw mp (Fin a) = rnd (a * c)" using assms(3) by (simp add: final_price_raw_def)
  obtain f where f: "round_up_50 (rnd (a * c)) = Inr f" "make_breakdown base (Fin a) f = Inr b"
    using assms(5) unfolding price_breakdown_def raw by (auto simp: bnd_def split: sum.splits)
  obtain x where x: "rnd (a * c) = Fin x"
    using f(1) by (cases "rnd (a * c)") (auto simp: round_up_50_def bnd_def inf_of_sign_def)
  obtain q where q: "rnd (x / 50) = Fin q" "f = \<lceil>q\<rceil> * 50"
    using f(1) unfolding x by (cases "rnd (x / 50)") (auto simp: round_up_50_def bnd_def)
  note mb = make_breakdown_fields[OF f(2)]
  have "a \<le> a * c" using assms(2,4) by (simp add: mult_le_cancel_left1)
  then have "fle (Fin a) (rnd (a * c))" using assms(1) by (intro rnd_ge)
  then have ax: "a \<le> x" using x by (simp add: fle_Fin)
  have x0: "0 \<le> x" using ax assms(2) by linarith
  have "fle (Fin 0) (rnd (x / 50))" using x0 by (intro rnd_nonneg) simp
  then have q0: "0 \<le> q" using q(1) by (simp add: fle_Fin)
  have "\<lceil>q\<rceil> \<noteq> 0" using mb(3) q(2) by simp
  moreover have "0 \<le> \<lceil>q\<rceil>" using q0 by simp
  ultimately have c1: "1 \<le> \<lceil>q\<rceil>" by linarith
  have af: "a \<le> of_int f"
  proof (cases "a \<le> 50")
    case True
    have "(50 :: rat) \<le> of_int (\<lceil>q\<rceil> * 50)" using c1 by simp
    then show ?thesis using True unfolding q(2) by linarith
  next
    case False
    then have a50: "50 < a" by simp
    have "1 \<le> a * c" using a50 assms(4) \<open>a \<le> a * c\<close> by linarith
    then have "31 / 32 * (a * c) \<le> x" using x by (rule rnd_rel)
    moreover have "a * (9 / 8) \<le> a * c" using assms(2,4) by (intro mult_left_mono) simp_all
    ultimately have x1: "279 / 256 * a \<le> x" by linarith
    then have "1 \<le> x / 50" using a50 by simp
    then have "31 / 32 * (x / 50) \<le> q" using q(1) by (rule rnd_rel)
    then have "a / 50 \<le> q" using x1 assms(2) by simp
    then have "a \<le> 50 * q" by simp
    moreover have "q \<le> of_int \<lceil>q\<rceil>" by (rule le_of_int_ceiling)
    ultimately have "a \<le> 50 * of_int \<lceil>q\<rceil>" by linarith
    then show ?thesis unfolding q(2) by simp
  qed
  define r where "r = round_half_even a"
  have rf: "r \<le> f" unfolding r_def using af by (rule rhe_le_int)
  have "rnd (of_int r) = Fin (of_int r)" unfolding r_def by (rule rhe_double[OF assms(1,2)])
  then have "totalCost b = Fin (of_int r)" using mb(2) by (simp add: py_round_def r_def)
  then have "fle (totalCost b) (Fin (of_int (finalPrice b)))" using rf mb(1) by (simp add: fle_Fin)
  moreover have "finalPrice b mod 50 = 0" using mb(1) q(2) by simp
  ultimately show ?thesis by simp
qed

section \<open>The final price\<close>

lemma fadd_double: "fadd u v = Fin a \<Longrightarrow> rnd a = Fin a"
  by (cases u; cases v) (auto intro: rnd_idem)

lemma fmul_double: "fmul u v = Fin a \<Longrightarrow> rnd a = Fin a"
  by (cases u; cases v) (auto simp: inf_of_sign_def intro: rnd_idem split: if_splits)

lemma supplement_total_cost_double:
  "supplement_total_cost p fx wg c dd xf = Inr (Fin a) \<Longrightarrow> rnd a = Fin a"
  by (auto simp: supplement_total_cost_def bnd_def Let_def split: sum.splits intro: fadd_double)

lemma supplement_costs_double:
  "supplement_costs d = Inr (base, Fin a) \<Longrightarrow> rnd a = Fin a"
  by (auto simp: supplement_costs_def bnd_def Let_def split: sum.splits
           intro: supplement_total_cost_double)

lemma device_total_cost_double:
  "device_total_cost b l w h wt m1 m2 = Inr (Fin a) \<Longrightarrow> rnd a = Fin a"
  by (auto simp: device_total_cost_def bnd_def Let_def split: sum.splits intro: fmul_double)

lemma device_costs_double:
  "device_costs d = Inr (base, Fin a) \<Longrightarrow> rnd a = Fin a"
  by (auto simp: device_costs_def bnd_def Let_def split: sum.splits
           intro: device_total_cost_double)

lemma device_total_cost_nonneg:
  assumes "nonneg b" "nonneg l" "nonneg w" "nonneg h" "nonneg wt" "nonneg m1" "nonneg m2"
    and "device_total_cost b l w h wt m1 m2 = Inr t"
  shows "nonneg t"
proof -
  have "nonneg (fmul (fmul l w) h)" using assms by (intro nonneg_fmul)
  then obtain vq where vq: "fdiv (fmul (fmul l w) h) (Fin 4000) = Inr vq" "nonneg vq"
    using fdiv_pos[of _ 4000] by auto
  have "nonneg (fmul wt (Fin 2))" using assms(5) by (intro nonneg_fmul) (simp_all add: nonneg_def)
  then have "nonneg (fadd (fadd (Fin 1) vq) (fmul wt (Fin 2)))"
    using vq(2) by (intro nonneg_fadd) (simp_all add: nonneg_Fin_1)
  then have "nonneg (fmul (fmul (fmul b (fadd (fadd (Fin 1) vq) (fmul wt (Fin 2)))) m1) m2)"
    using assms(1,6,7) by (intro nonneg_fmul)
  then show ?thesis using assms(8) vq(1) by (simp add: device_total_cost_def bnd_def Let_def)
qed

lemma device_costs_nonneg:
  assumes "validate_device_inputs d = Inr True" "device_costs d = Inr (base, t)"
  shows "nonneg t"
proof -
  note v = assms(1)[unfolded validate_device_inputs_def]
  obtain p where p: "py_float (dict_get d ''purchasePrice'' (JInt 0)) = Inr p" "nonneg p"
    using validated_get[OF v, of "''purchasePrice''"] by auto
  obtain fx where fx: "py_float (dict_get d ''fxRate'' (JInt 50)) = Inr fx" "nonneg fx"
    using validated_get[OF v, of "''fxRate''"] by auto
  obtain l where l: "py_float (dict_get d ''lengthCm'' (JInt 0)) = Inr l" "nonneg l"
    using validated_get[OF v, of "''lengthCm''"] by auto
  obtain w where w: "py_float (dict_get d ''widthCm'' (JInt 0)) = Inr w" "nonneg w"
    using validated_get[OF v, of "''widthCm''"] by auto
  obtain h where h: "py_float (dict_get d ''heightCm'' (JInt 0)) = Inr h" "nonneg h"
    using validated_get[OF v, of "''heightCm''"] by auto
  obtain wt where wt: "py_float (dict_get d ''weightKg'' (JInt 0)) = Inr wt" "nonneg wt"
    using validated_get[OF v, of "''weightKg''"] by auto
  have b: "nonneg (fmul p fx)" using p(2) fx(2) by (rule nonneg_fmul)
  have dc: "device_costs d =
      bnd (multiplier ''maleSupport'' (map_of d ''isMaleSupport'')) (\<lambda>maleMult.
      bnd (multiplier ''importOrigin'' (map_of d ''importFrom'')) (\<lambda>originMult.
      bnd (device_total_cost (fmul p fx) l w h wt maleMult originMult) (\<lambda>total_cost.
      Inr (fmul p fx, total_cost))))"
    by (simp add: device_costs_def bnd_Inr[OF p(1)] bnd_Inr[OF fx(1)] bnd_Inr[OF l(1)]
          bnd_Inr[OF w(1)] bnd_Inr[OF h(1)] bnd_Inr[OF wt(1)] Let_def)
  obtain m1 m2 where m: "multiplier ''maleSupport'' (map_of d ''isMaleSupport'') = Inr m1"
    "multiplier ''importOrigin'' (map_of d ''importFrom'') = Inr m2"
    "device_total_cost (fmul p fx) l w h wt m1 m2 = Inr t"
    using assms(2) unfolding dc by (auto simp: bnd_def split: sum.splits)
  show ?thesis
    by (rule device_total_cost_nonneg[OF b l(2) w(2) h(2) wt(2)
          multiplier_nonneg[OF m(1)] multiplier_nonneg[OF m(2)] m(3)])
qed

lemma final_price_raw_Fin:
  assumes "final_price_raw mp t = Fin x" "fadd (Fin 1) (lit mp) = Fin c"
  shows "\<exists>a. t = Fin a"
  using assms by (cases t) (auto simp: final_price_raw_def inf_of_sign_def split: if_splits)

lemma final_price_supplement:
  assumes "x \<le> 2 ^ 53" "validate_supplement_inputs d = Inr True" "supplement_costs d = Inr (base, t)"
    "final_price_raw (37 / 100) t = Fin x" "calculate_supplement_price d = Inr b"
  shows "finalPrice b = 50 * \<lceil>x / 50\<rceil> \<and> finalPrice b mod 50 = 0
        \<and> fle (totalCost b) (Fin (of_int (finalPrice b)))"
proof -
  obtain a where a: "t = Fin a" using final_price_raw_Fin[OF assms(4) margin_37] by blast
  have "t = NaN \<or> fle (Fin 380) t" using supplement_costs_cases[OF assms(2)] assms(3) by auto
  then have a0: "0 \<le> a" using a by (simp add: fle_Fin)
  have da: "rnd a = Fin a" using supplement_costs_double assms(3) a by blast
  have pb: "price_breakdown (37 / 100) base (Fin a) = Inr b"
    using assms(3,5) a by (simp add: calculate_supplement_price_def bnd_def)
  show ?thesis
    by (rule price_breakdown_smallest[OF da a0 margin_37 _ assms(4)[unfolded a] assms(1) pb]) simp
qed

lemma final_price_device:
  assumes "x \<le> 2 ^ 53" "validate_device_inputs d = Inr True" "device_costs d = Inr (base, t)"
    "final_price_raw (15 / 100) t = Fin x" "calculate_device_price d = Inr b"
  shows "finalPrice b = 50 * \<lceil>x / 50\<rceil> \<and> finalPrice b mod 50 = 0
        \<and> fle (totalCost b) (Fin (of_int (finalPrice b)))"
proof -
  obtain a where a: "t = Fin a" using final_price_raw_Fin[OF assms(4) margin_15] by blast
  have "nonneg t" by (rule device_costs_nonneg[OF assms(2,3)])
  then have a0: "0 \<le> a" using a by (simp add: nonneg_def)
  have da: "rnd a = Fin a" using device_costs_double assms(3) a by blast
  have pb: "price_breakdown (15 / 100) base (Fin a) = Inr b"
    using assms(3,5) a by (simp add: calculate_device_price_def bnd_def)
  show ?thesis
    by (rule price_breakdown_smallest[OF da a0 margin_15 _ assms(4)[unfolded a] assms(1) pb]) simp
qed

lemma price_breakdown_Fin:
  assumes "price_breakdown mp base t = Inr b" "fadd (Fin 1) (lit mp) = Fin c"
  shows "\<exists>a. t = Fin a"
  using assms
  by (cases t) (auto simp: price_breakdown_def final_price_raw_def round_up_50_def bnd_def
        inf_of_sign_def split: if_splits)

lemma total_le_supplement:
  assumes "validate_supplement_inputs d = Inr True" "calculate_supplement_price d = Inr b"
  shows "finalPrice b mod 50 = 0 \<and> fle (totalCost b) (Fin (of_int (finalPrice b)))"
proof -
  obtain base t where bt: "supplement_costs d = Inr (base, t)"
    "price_breakdown (37 / 100) base t = Inr b"
    using assms(2) by (auto simp: calculate_supplement_price_def bnd_def split: sum.splits)
  obtain a where a: "t = Fin a" using price_breakdown_Fin[OF bt(2) margin_37] by blast
  have "t = NaN \<or> fle (Fin 380) t" using supplement_costs_cases[OF assms(1)] bt(1) by auto
  then have a0: "0 \<le> a" using a by (simp add: fle_Fin)
  have da: "rnd a = Fin a" using supplement_costs_double bt(1) a by blast
  show ?thesis
    by (rule price_breakdown_total_le[OF da a0 margin_37 _ bt(2)[unfolded a]]) simp
qed

lemma total_le_device:
  assumes "validate_device_inputs d = Inr True" "calculate_device_price d = Inr b"
  shows "finalPrice b mod 50 = 0 \<and> fle (totalCost b) (Fin (of_int (finalPrice b)))"
proof -
  obtain base t where bt: "device_costs d = Inr (base, t)"
    "price_breakdown (15 / 100) base t = Inr b"
    using assms(2) by (auto simp: calculate_device_price_def bnd_def split: sum.splits)
  obtain a where a: "t = Fin a" using price_breakdown_Fin[OF bt(2) margin_15] by blast
  have "nonneg t" by (rule device_costs_nonneg[OF assms(1) bt(1)])
  then have a0: "0 \<le> a" using a by (simp add: nonneg_def)
  have da: "rnd a = Fin a" using device_costs_double bt(1) a by blast
  show ?thesis
    by (rule price_breakdown_total_le[OF da a0 margin_15 _ bt(2)[unfolded a]]) simp
qed

text \<open>
  C2, amended: for a validated input of either category on which the formula returns a
  breakdown, finalPrice is a multiple of 50 and is at least the returned totalCost; and
  when \<^verbatim>\<open>final_price_raw\<close> (the float product \<^verbatim>\<open>total_cost * (1 + margin_percent)\<close>
  the code computes) is a number \<open>x\<close> of at most \<open>2 ^ 53\<close>, finalPrice is the smallest
  multiple of 50 that is at least \<open>x\<close>.
\<close>

theorem final_price_smallest_multiple:
  "(validate_supplement_inputs d = Inr True \<and> calculate_supplement_price d = Inr b \<longrightarrow>
      finalPrice b mod 50 = 0 \<and> fle (totalCost b) (Fin (of_int (finalPrice b)))
      \<and> (supplement_costs d = Inr (base, t) \<and> final_price_raw (37 / 100) t = Fin x
          \<and> x \<le> 2 ^ 53 \<longrightarrow> finalPrice b = 50 * \<lceil>x / 50\<rceil>))
   \<and> (validate_device_inputs d = Inr True \<and> calculate_device_price d = Inr b \<longrightarrow>
      finalPrice b mod 50 = 0 \<and> fle (totalCost b) (Fin (of_int (finalPrice b)))
      \<and> (device_costs d = Inr (base, t) \<and> final_price_raw (15 / 100) t = Fin x
          \<and> x \<le> 2 ^ 53 \<longrightarrow> finalPrice b = 50 * \<lceil>x / 50\<rceil>))"
  using total_le_supplement[of d b] total_le_device[of d b]
    final_price_supplement[of x d base t b] final_price_device[of x d base t b]
  by blast

lemma huge_h1: "rnd (1152921504606846976) = Fin (1152921504606846976)"
  by (subst rnd_cert[where e="60" and m=4503599627370496]) (simp_all add: pow2_def)

lemma huge_h4: "rnd (1325859730297873920) = Fin (1325859730297873920)"
  by (subst rnd_cert[where e="60" and m=5179139571476070]) (simp_all add: pow2_def)

lemma huge_h5: "rnd (132585973029787392 / 5) = Fin (26517194605957480)"
  by (subst rnd_cert[where e="54" and m=6629298651489370]) (simp_all add: pow2_def)

lemma huge_h6: "rnd (1325859730297874000) = Fin (1325859730297873920)"
  by (subst rnd_cert[where e="60" and m=5179139571476070]) (simp_all add: pow2_def)

lemma huge_h7: "rnd (172938225691026944) = Fin (172938225691026944)"
  by (subst rnd_cert[where e="57" and m=5404319552844592]) (simp_all add: pow2_def)

lemma huge_h8: "rnd (337769972052787 / 2589569785738035) = Fin (4699408306821385 / 36028797018963968)"
  by (subst rnd_cert[where e="-3" and m=4699408306821385]) (simp_all add: pow2_def)

lemma huge_h9: "rnd (117485207670534625 / 9007199254740992) = Fin (3671412739704207 / 281474976710656)"
  by (subst rnd_cert[where e="3" and m=7342825479408414]) (simp_all add: pow2_def)

lemma huge_r1: "round_half_even (18357063698521035 / 140737488355328) = 130"
  by (rule rhe_eqI) simp

lemma huge_c1: "\<lceil>26517194605957480 :: rat\<rceil> = 26517194605957480"
  by (rule ceiling_unique) simp_all

lemma huge_c2: "\<lceil>132585973029787392 / 5 :: rat\<rceil> = 26517194605957479"
  by (rule ceiling_unique) simp_all

lemmas huge_facts = huge_h1 huge_h4 huge_h5 huge_h6 huge_h7 huge_h8 huge_h9 huge_r1 huge_c1 dev_d1 dev_d2

lemma margin_15n: "fadd (Fin 1) (lit (3 / 20)) = Fin (2589569785738035 / 2251799813685248)"
  using margin_15 by simp

lemma huge_device_validated: "validate_device_inputs huge_device = Inr True"
  by (simp add: validate_device_inputs_def huge_device_def float_of_int_def rnd_numeral rnd_0 rnd_1 huge_h1)

lemma huge_device_costs:
  "device_costs huge_device = Inr (Fin 1152921504606846976, Fin 1152921504606846976)"
  by (simp add: huge_device_def device_costs_def device_total_cost_def multiplier_def MULTIPLIERS_def
        dict_get_def eval_defs rnd_0 huge_facts)

lemma huge_device_raw:
  "final_price_raw (3 / 20) (Fin 1152921504606846976) = Fin 1325859730297873920"
  by (simp add: final_price_raw_def margin_15n huge_facts)

lemma huge_device_result:
  "calculate_device_price huge_device =
     Inr \<lparr>baseCost = Fin 1152921504606846976, totalCost = Fin 1152921504606846976,
          finalPrice = 1325859730297874000, profit = Fin 172938225691026944, margin = Fin 13\<rparr>"
  by (simp add: calculate_device_price_def huge_device_costs price_breakdown_def huge_device_raw
        round_up_50_def make_breakdown_def eval_defs huge_facts)

text \<open>
  C2, as stated, fails on large prices: for a device priced \<open>2 ^ 60\<close> the quotient
  \<^verbatim>\<open>final_price_raw / 50\<close> is rounded to a float before \<^verbatim>\<open>math.ceil\<close>, and the
  finalPrice returned is neither the smallest multiple of 50 above \<^verbatim>\<open>final_price_raw\<close>
  nor at least \<open>1.15\<close> times the total cost.
\<close>

theorem huge_device_not_smallest:
  "validate_device_inputs huge_device = Inr True
   \<and> device_costs huge_device = Inr (Fin (2 ^ 60), Fin (2 ^ 60))
   \<and> final_price_raw (15 / 100) (Fin (2 ^ 60)) = Fin 1325859730297873920
   \<and> (\<exists>b. calculate_device_price huge_device = Inr b \<and> finalPrice b = 1325859730297874000)
   \<and> (1325859730297874000 :: int) \<noteq> 50 * \<lceil>1325859730297873920 / 50 :: rat\<rceil>
   \<and> (of_int 1325859730297874000 :: rat) < 2 ^ 60 * (1 + 15 / 100)"
  by (simp add: huge_device_validated huge_device_costs huge_device_raw huge_device_result huge_c2)

lemma supplement_example_raw:
  "final_price_raw (37 / 100) (Fin (1261359739384627 / 1099511627776))
     = Fin (1728062842956939 / 1099511627776)"
  by (simp add: final_price_raw_def margin_37 supp_facts)

lemma device_example_validated: "validate_device_inputs device_example = Inr True"
  by (simp add: validate_device_inputs_def device_example_def float_of_int_def rnd_numeral)

lemma device_example_costs: "device_costs device_example = Inr (Fin 5000, Fin 65000)"
  by (simp add: device_example_def device_costs_def device_total_cost_def multiplier_def MULTIPLIERS_def
        dict_get_def eval_defs)

lemma device_example_raw: "final_price_raw (3 / 20) (Fin 65000) = Fin 74750"
  by (simp add: final_price_raw_def margin_15n dev_facts)

lemma device_example_result:
  "calculate_device_price device_example =
     Inr \<lparr>baseCost = Fin 5000, totalCost = Fin 65000, finalPrice = 74750, profit = Fin 9750,
          margin = Fin 13\<rparr>"
  by (simp add: calculate_device_price_def device_example_costs price_breakdown_def device_example_raw
        round_up_50_def make_breakdown_def eval_defs dev_facts)

theorem final_price_smallest_multiple_witness:
  "(1728062842956939 / 1099511627776 :: rat) \<le> 2 ^ 53
   \<and> validate_supplement_inputs supplement_example = Inr True
   \<and> supplement_costs supplement_example = Inr (Fin 500, Fin (1261359739384627 / 1099511627776))
   \<and> final_price_raw (37 / 100) (Fin (1261359739384627 / 1099511627776))
       = Fin (1728062842956939 / 1099511627776)
   \<and> (\<exists>b. calculate_supplement_price supplement_example = Inr b
          \<and> finalPrice b = 50 * \<lceil>1728062842956939 / 1099511627776 / 50 :: rat\<rceil>
          \<and> finalPrice b = 1600 \<and> finalPrice b mod 50 = 0
          \<and> fle (totalCost b) (Fin (of_int (finalPrice b))))
   \<and> (74750 :: rat) \<le> 2 ^ 53
   \<and> validate_device_inputs device_example = Inr True
   \<and> device_costs device_example = Inr (Fin 5000, Fin 65000)
   \<and> final_price_raw (15 / 100) (Fin 65000) = Fin 74750
   \<and> (\<exists>b. calculate_device_price device_example = Inr b
          \<and> finalPrice b = 50 * \<lceil>74750 / 50 :: rat\<rceil>
          \<and> finalPrice b = 74750 \<and> finalPrice b mod 50 = 0
          \<and> fle (totalCost b) (Fin (of_int (finalPrice b))))"
  using final_price_smallest_multiple[where x = "1728062842956939 / 1099511627776"
          and d = supplement_example and base = "Fin 500"
          and t = "Fin (1261359739384627 / 1099511627776)"
          and b = "\<lparr>baseCost = Fin 500, totalCost = Fin 1147, finalPrice = 1600,
                   profit = Fin 453, margin = lit (283 / 10)\<rparr>"]
        final_price_smallest_multiple[where x = 74750 and d = device_example
          and base = "Fin 5000" and t = "Fin 65000"
          and b = "\<lparr>baseCost = Fin 5000, totalCost = Fin 65000, finalPrice = 74750,
                   profit = Fin 9750, margin = Fin 13\<rparr>"]
  by (simp add: supplement_example_validated supplement_example_costs supplement_example_raw
        supplement_example_result device_example_validated device_example_costs device_example_raw
        device_example_result fle_Fin)

section \<open>Magnitudes\<close>

lemma rnd_pow2:
  assumes "- 1022 \<le> k" "k \<le> 1023"
  shows "rnd (pow2 k) = Fin (pow2 k)"
proof -
  have p: "0 < pow2 k" by (rule pow2_pos)
  have b: "bexp (pow2 k) = k" using assms(1) by (simp add: bexp_def flog2_pow2)
  have "pow2 k = of_int (2 ^ 52) * ulp (pow2 k)" using pow2_52_ulp[of "pow2 k"] b by simp
  then have "rpos (pow2 k) = pow2 k" by (rule rpos_fix)
  moreover have "pow2 k < pow2 1024" using assms(2) by (simp add: pow2_less_iff)
  ultimately show ?thesis using p by (simp add: rnd_pos)
qed

lemma pow2_Suc: "pow2 (k + 1) = 2 * pow2 k"
proof -
  have "pow2 1 = 2" by (simp add: pow2_def)
  then show ?thesis using pow2_add[of k 1] by simp
qed

lemma mag_le_Fin: "mag_le k (Fin x) \<longleftrightarrow> \<bar>x\<bar> \<le> pow2 k"
  by (simp add: mag_le_def)

lemma mag_leE: "mag_le k a \<Longrightarrow> \<exists>x. a = Fin x \<and> \<bar>x\<bar> \<le> pow2 k"
  by (cases a) (simp_all add: mag_le_def)

lemma rnd_mag_le:
  assumes "\<bar>x\<bar> \<le> pow2 k" "- 1022 \<le> k" "k \<le> 1023"
  shows "mag_le k (rnd x)"
proof -
  have r: "rnd (pow2 k) = Fin (pow2 k)" by (rule rnd_pow2[OF assms(2,3)])
  have "rnd (- pow2 k) = Fin (- pow2 k)" using rnd_minus[of "pow2 k"] r by (simp add: fneg_def)
  moreover have "- pow2 k \<le> x" "x \<le> pow2 k" using assms(1) by linarith+
  ultimately obtain y where "rnd x = Fin y" "- pow2 k \<le> y" "y \<le> pow2 k"
    using rnd_between[of "- pow2 k" x "pow2 k"] r by blast
  then show ?thesis by (simp add: mag_le_Fin abs_le_iff)
qed

lemma mag_le_mono: "mag_le j a \<Longrightarrow> j \<le> k \<Longrightarrow> mag_le k a"
  using pow2_mono[of j k] by (cases a) (auto simp: mag_le_def)

lemma mag_le_fmul:
  assumes "mag_le j a" "mag_le k b" "- 1022 \<le> j + k" "j + k \<le> 1023"
  shows "mag_le (j + k) (fmul a b)"
proof -
  obtain x where x: "a = Fin x" "\<bar>x\<bar> \<le> pow2 j" using mag_leE[OF assms(1)] by blast
  obtain y where y: "b = Fin y" "\<bar>y\<bar> \<le> pow2 k" using mag_leE[OF assms(2)] by blast
  have "\<bar>x * y\<bar> \<le> pow2 j * pow2 k"
    unfolding abs_mult using x(2) y(2) by (intro mult_mono) simp_all
  then have "\<bar>x * y\<bar> \<le> pow2 (j + k)" by (simp add: pow2_add)
  then show ?thesis using x(1) y(1) rnd_mag_le[OF _ assms(3,4)] by simp
qed

lemma mag_le_fadd:
  assumes "mag_le k a" "mag_le k b" "- 1022 \<le> k + 1" "k + 1 \<le> 1023"
  shows "mag_le (k + 1) (fadd a b)"
proof -
  obtain x where x: "a = Fin x" "\<bar>x\<bar> \<le> pow2 k" using mag_leE[OF assms(1)] by blast
  obtain y where y: "b = Fin y" "\<bar>y\<bar> \<le> pow2 k" using mag_leE[OF assms(2)] by blast
  have "\<bar>x + y\<bar> \<le> pow2 (k + 1)" unfolding pow2_Suc using x(2) y(2) by linarith
  then show ?thesis using x(1) y(1) rnd_mag_le[OF _ assms(3,4)] by simp
qed

lemma mag_le_fsub:
  assumes "mag_le k a" "mag_le k b" "- 1022 \<le> k + 1" "k + 1 \<le> 1023"
  shows "mag_le (k + 1) (fsub a b)"
proof -
  have "mag_le k (fneg b)" using assms(2) by (cases b) (simp_all add: mag_le_def fneg_def)
  then show ?thesis unfolding fsub_def using assms by (intro mag_le_fadd)
qed

lemma mag_le_fdiv:
  assumes "mag_le k a" "1 \<le> c" "- 1022 \<le> k" "k \<le> 1023"
  shows "\<exists>r. fdiv a (Fin c) = Inr r \<and> mag_le k r"
proof -
  obtain x where x: "a = Fin x" "\<bar>x\<bar> \<le> pow2 k" using mag_leE[OF assms(1)] by blast
  have cpos: "0 < c" using assms(2) by linarith
  have "\<bar>x\<bar> \<le> c * \<bar>x\<bar>" using mult_right_mono[of 1 c "\<bar>x\<bar>"] assms(2) by simp
  then have "\<bar>x\<bar> / c \<le> \<bar>x\<bar>" using cpos by (simp add: pos_divide_le_eq mult.commute)
  then have "\<bar>x / c\<bar> \<le> \<bar>x\<bar>" using cpos by (simp add: abs_divide)
  then have "\<bar>x / c\<bar> \<le> pow2 k" using x(2) by linarith
  then show ?thesis using x(1) cpos rnd_mag_le[OF _ assms(3,4)] by simp
qed

lemma pow2_ge_1: "0 \<le> k \<Longrightarrow> 1 \<le> pow2 k"
  using pow2_mono[of 0 k] by (simp add: pow2_def)

lemma py_round_mag_le:
  assumes "mag_le k a" "0 \<le> k" "k + 1 \<le> 1023"
  shows "\<exists>y. py_round a nd = Inr (Fin y)"
proof -
  obtain x where x: "a = Fin x" "\<bar>x\<bar> \<le> pow2 k" using mag_leE[OF assms(1)] by blast
  define s :: rat where "s = 10 ^ nd"
  have s1: "1 \<le> s" by (simp add: s_def)
  define r where "r = round_half_even (x * s)"
  have "\<bar>of_int r - x * s\<bar> \<le> 1 / 2" using rhe_bounds[of "x * s"] unfolding r_def by linarith
  then have "\<bar>of_int r :: rat\<bar> \<le> \<bar>x * s\<bar> + 1 / 2" by linarith
  then have "\<bar>of_int r\<bar> \<le> \<bar>x\<bar> * s + 1 / 2" using s1 by (simp add: abs_mult)
  then have "\<bar>of_int r\<bar> / s \<le> (\<bar>x\<bar> * s + 1 / 2) / s" using s1 by (intro divide_right_mono) simp_all
  also have "\<dots> = \<bar>x\<bar> + 1 / (2 * s)" using s1 by (simp add: field_simps)
  also have "\<dots> \<le> \<bar>x\<bar> + 1" using s1 by (simp add: field_simps)
  also have "\<dots> \<le> pow2 (k + 1)" using x(2) pow2_ge_1[OF assms(2)] unfolding pow2_Suc by linarith
  finally have "\<bar>of_int r / s\<bar> \<le> pow2 (k + 1)" using s1 by (simp add: abs_divide)
  then have "mag_le (k + 1) (rnd (of_int r / s))" using assms(2,3) by (intro rnd_mag_le) simp_all
  then obtain y where "rnd (of_int r / s) = Fin y" using mag_leE by blast
  then show ?thesis using x(1) by (simp add: py_round_def r_def s_def)
qed

lemma float_of_int_mag_le:
  assumes "\<bar>of_int n :: rat\<bar> \<le> pow2 k" "- 1022 \<le> k" "k \<le> 1023"
  shows "\<exists>f. float_of_int n = Inr f \<and> mag_le k f"
proof -
  obtain y where y: "rnd (of_int n) = Fin y" "\<bar>y\<bar> \<le> pow2 k"
    using mag_leE[OF rnd_mag_le[OF assms]] by blast
  then show ?thesis by (simp add: float_of_int_def mag_le_Fin)
qed

lemma mag_le_lit: "\<bar>x\<bar> \<le> 2 \<Longrightarrow> mag_le 1 (lit x)"
  unfolding lit_def by (rule rnd_mag_le) (simp_all add: pow2_def)

lemma mag_le_numeral: "(numeral n :: rat) \<le> pow2 k \<Longrightarrow> mag_le k (Fin (numeral n))"
  by (simp add: mag_le_Fin)

lemma mag_le_Fin_1: "mag_le 1 (Fin 1)"
  by (simp add: mag_le_Fin pow2_def)

lemma table_values_mag_le:
  assumes "map_of MULTIPLIERS name = Some t" "map_of t s = Some v"
  shows "mag_le 1 v"
proof -
  have "\<forall>(n, tb) \<in> set MULTIPLIERS. \<forall>(k, w) \<in> set tb. mag_le 1 w"
    by (simp add: MULTIPLIERS_def mag_le_lit mag_le_Fin_1)
  moreover have "(name, t) \<in> set MULTIPLIERS" using assms(1) by (rule map_of_SomeD)
  moreover have "(s, v) \<in> set t" using assms(2) by (rule map_of_SomeD)
  ultimately show ?thesis by blast
qed

lemma multiplier_ok:
  assumes "map_of MULTIPLIERS name \<noteq> None" "\<And>v. key = Some v \<Longrightarrow> hashable v"
  shows "\<exists>m. multiplier name key = Inr m \<and> nonneg m \<and> mag_le 1 m"
proof -
  obtain t where t: "map_of MULTIPLIERS name = Some t" using assms(1) by blast
  have "\<exists>m. multiplier name key = Inr m \<and> mag_le 1 m"
  proof (cases key)
    case None then show ?thesis using t by (simp add: multiplier_def mag_le_Fin_1)
  next
    case (Some w)
    then have "hashable w" by (rule assms(2))
    then show ?thesis using t Some table_values_mag_le[OF t]
      by (cases w) (auto simp: multiplier_def mag_le_Fin_1 split: option.splits)
  qed
  then show ?thesis using multiplier_nonneg by blast
qed

lemma zero_dose_guard:
  "days_supply c (Fin 0) = Inr (Fin 30)"
  "months_supply c (Fin 0) = Inr (Fin 1)"
  "dosage_adjustment c (Fin 0) = Inr (Fin 0)"
  by (simp_all add: days_supply_def months_supply_def dosage_adjustment_def fgt_def bnd_def
        py_min_def fsub_def fneg_def rnd_1 rnd_0 rnd_numeral)

lemma make_breakdown_returns:
  assumes "mag_le 800 base" "mag_le 823 t" "1 \<le> f" "\<bar>of_int f :: rat\<bar> \<le> pow2 823"
  shows "\<exists>b. make_breakdown base t f = Inr b"
proof -
  obtain bc where bc: "py_round base 2 = Inr (Fin bc)" using py_round_mag_le[OF assms(1)] by auto
  obtain tc where tc: "py_round t 0 = Inr (Fin tc)" using py_round_mag_le[OF assms(2)] by auto
  obtain fp where fp: "float_of_int f = Inr fp" "mag_le 823 fp"
    using float_of_int_mag_le[OF assms(4)] by auto
  have "(1::rat) \<le> of_int f" using assms(3) by simp
  then obtain y where y: "fp = Fin y" "1 \<le> y" using float_of_int_ge[OF rnd_1 _ fp(1)] by blast
  have d: "mag_le 824 (fsub fp t)" using mag_le_fsub[OF fp(2) assms(2)] by simp
  obtain pr where pr: "py_round (fsub fp t) 0 = Inr (Fin pr)" using py_round_mag_le[OF d] by auto
  obtain ratio where ratio: "fdiv (fsub fp t) fp = Inr ratio" "mag_le 824 ratio"
    using mag_le_fdiv[OF d y(2)] y(1) by auto
  have "mag_le 7 (Fin 100)" by (simp add: mag_le_Fin pow2_def)
  then have "mag_le 831 (fmul ratio (Fin 100))" using mag_le_fmul[OF ratio(2), of 7] by simp
  then obtain mg where mg: "py_round (fmul ratio (Fin 100)) 1 = Inr (Fin mg)"
    using py_round_mag_le[of 831] by auto
  have mg': "py_round (fmul ratio (Fin 100)) (Suc 0) = Inr (Fin mg)" using mg by simp
  show ?thesis by (simp add: make_breakdown_def bnd_def bc tc fp(1) pr ratio(1) mg')
qed

lemma ceiling_abs_le: "\<bar>of_int \<lceil>q\<rceil> :: rat\<bar> \<le> \<bar>q\<bar> + 1"
proof -
  have "of_int \<lceil>q\<rceil> - 1 < q" "q \<le> of_int \<lceil>q\<rceil>" using ceiling_correct[of q] by auto
  then show ?thesis by linarith
qed

lemma xfactor_ok:
  assumes "nonneg a1" "mag_le 1 a1" "nonneg a2" "mag_le 1 a2" "nonneg a3" "mag_le 1 a3"
    "nonneg a4" "mag_le 1 a4" "nonneg a5" "mag_le 1 a5"
  shows "nonneg (fmul (fmul (fmul (fmul a1 a2) a3) a4) a5)"
    "mag_le 5 (fmul (fmul (fmul (fmul a1 a2) a3) a4) a5)"
proof -
  show "nonneg (fmul (fmul (fmul (fmul a1 a2) a3) a4) a5)" using assms by (intro nonneg_fmul)
  have "mag_le 2 (fmul a1 a2)" using mag_le_fmul[OF assms(2,4)] by simp
  then have "mag_le 3 (fmul (fmul a1 a2) a3)" using mag_le_fmul[OF _ assms(6), of 2] by simp
  then have "mag_le 4 (fmul (fmul (fmul a1 a2) a3) a4)" using mag_le_fmul[OF _ assms(8), of 3] by simp
  then show "mag_le 5 (fmul (fmul (fmul (fmul a1 a2) a3) a4) a5)"
    using mag_le_fmul[OF _ assms(10), of 4] by simp
qed

section \<open>Returning a breakdown\<close>

lemma fle_Fin_cases: "fle (Fin c) a \<Longrightarrow> a = PInf \<or> (\<exists>x. a = Fin x \<and> c \<le> x)"
  by (cases a) (auto simp: fle_def)

lemma mag_le_fle:
  assumes "mag_le k a" "fle (Fin c) a"
  obtains x where "a = Fin x" "c \<le> x" "\<bar>x\<bar> \<le> pow2 k"
  using assms by (cases a) (auto simp: mag_le_def fle_Fin)

lemma supplement_total_cost_bounded:
  assumes p: "mag_le 400 p" and fx: "mag_le 400 fx" and wg: "mag_le 400 wg" and xf: "mag_le 5 xf"
    and c: "nonneg c"
  shows "\<exists>t. supplement_total_cost p fx wg c dd xf = Inr t \<and> mag_le 814 t"
proof -
  have "mag_le 405 (fmul p xf)" using mag_le_fmul[OF p xf] by simp
  then have bp: "mag_le 805 (fmul (fmul p xf) fx)" using mag_le_fmul[OF _ fx, of 405] by simp
  have "mag_le 5 (Fin 32)" by (simp add: mag_le_Fin pow2_def)
  then have "mag_le 405 (fmul wg (Fin 32))" using mag_le_fmul[OF wg, of 5] by simp
  then have "mag_le 805 (fmul (fmul wg (Fin 32)) fx)" using mag_le_fmul[OF _ fx, of 405] by simp
  then obtain wc where wc: "fdiv (fmul (fmul wg (Fin 32)) fx) (Fin 1000) = Inr wc" "mag_le 805 wc"
    using mag_le_fdiv[of 805 _ 1000] by auto
  have "mag_le 806 (fadd (fmul (fmul p xf) fx) wc)" using mag_le_fadd[OF bp wc(2)] by simp
  moreover have "mag_le 1 (lit (14 / 10))" by (rule mag_le_lit) simp
  ultimately have "mag_le 807 (fmul (lit (14 / 10)) (fadd (fmul (fmul p xf) fx) wc))"
    using mag_le_fmul[of 1 _ 806] by simp
  moreover have "mag_le 807 (Fin 380)"
    by (rule mag_le_mono[of 9]) (simp_all add: mag_le_Fin pow2_def)
  ultimately have adj: "mag_le 808 (fadd (Fin 380) (fmul (lit (14 / 10)) (fadd (fmul (fmul p xf) fx) wc)))"
    using mag_le_fadd[of 807] by simp
  obtain r where r: "dosage_adjustment c dd = Inr (Fin r)" "0 \<le> r" "r \<le> 150"
    using dosage_adjustment_range[OF c] by blast
  have "mag_le 808 (Fin r)"
    by (rule mag_le_mono[of 8]) (use r in \<open>simp_all add: mag_le_Fin pow2_def\<close>)
  then have "mag_le 809 (fadd (fadd (Fin 380) (fmul (lit (14 / 10)) (fadd (fmul (fmul p xf) fx) wc))) (Fin r))"
    using mag_le_fadd[OF adj] by simp
  then have "mag_le 814 (fadd (fadd (Fin 380) (fmul (lit (14 / 10)) (fadd (fmul (fmul p xf) fx) wc))) (Fin r))"
    by (rule mag_le_mono) simp
  then show ?thesis using wc(1) r(1)
    by (simp add: supplement_total_cost_def bnd_def Let_def)
qed

lemma pow2_neg_206: "pow2 (- 206) \<le> pow2 (- 200) / 50"
proof -
  have "pow2 (- 200) = pow2 6 * pow2 (- 206)" unfolding pow2_add[symmetric] by simp
  moreover have "pow2 6 = 64" by (simp add: pow2_def)
  ultimately show ?thesis using pow2_pos[of "- 206"] by simp
qed

lemma price_breakdown_bounded:
  assumes "mag_le 800 base" "mag_le 814 t" "fle (Fin (pow2 (- 200))) t"
    and "fadd (Fin 1) (lit mp) = Fin c" "1 \<le> c" "c \<le> 2"
  shows "\<exists>b. price_breakdown mp base t = Inr b"
proof -
  obtain a where a: "t = Fin a" "pow2 (- 200) \<le> a" using mag_le_fle[OF assms(2,3)] by blast
  have apos: "0 < a" using a(2) pow2_pos[of "- 200"] by linarith
  have "mag_le 1 (Fin c)" using assms(5,6) by (simp add: mag_le_Fin pow2_def)
  then have raw: "mag_le 815 (final_price_raw mp t)"
    using mag_le_fmul[OF assms(2), of 1] by (simp add: final_price_raw_def assms(4))
  have "a \<le> a * c" using apos assms(5) by (simp add: mult_le_cancel_left1)
  then have "pow2 (- 200) \<le> a * c" using a(2) by linarith
  then have "fle (Fin (pow2 (- 200))) (rnd (a * c))" by (intro rnd_ge rnd_pow2) simp_all
  then have rawlo: "fle (Fin (pow2 (- 200))) (final_price_raw mp t)"
    by (simp add: final_price_raw_def assms(4) a(1))
  obtain x where x: "final_price_raw mp t = Fin x" "pow2 (- 200) \<le> x"
    using mag_le_fle[OF raw rawlo] by blast
  obtain qf where qf: "fdiv (final_price_raw mp t) (Fin 50) = Inr qf" "mag_le 815 qf"
    using mag_le_fdiv[OF raw, of 50] by auto
  have "pow2 (- 206) \<le> x / 50" using x(2) pow2_neg_206 by (simp add: divide_right_mono order_trans)
  then have "fle (Fin (pow2 (- 206))) (rnd (x / 50))" by (intro rnd_ge rnd_pow2) simp_all
  then have "fle (Fin (pow2 (- 206))) qf" using qf(1) x(1) by simp
  then obtain q where q: "qf = Fin q" "pow2 (- 206) \<le> q" "\<bar>q\<bar> \<le> pow2 815"
    using mag_le_fle[OF qf(2)] by blast
  have qpos: "0 < q" using q(2) pow2_pos[of "- 206"] by linarith
  define f where "f = \<lceil>q\<rceil> * 50"
  have r: "round_up_50 (final_price_raw mp t) = Inr f"
    unfolding round_up_50_def qf(1) q(1) f_def by (simp add: bnd_def)
  have "0 < \<lceil>q\<rceil>" using qpos by simp
  then have f1: "1 \<le> f" unfolding f_def by linarith
  have "\<bar>of_int f :: rat\<bar> = 50 * \<bar>of_int \<lceil>q\<rceil>\<bar>" by (simp add: f_def abs_mult)
  also have "\<dots> \<le> 50 * (\<bar>q\<bar> + 1)" using ceiling_abs_le[of q] by simp
  also have "\<dots> \<le> 50 * (pow2 815 + pow2 815)" using q(3) pow2_ge_1[of 815] by simp
  also have "\<dots> \<le> pow2 8 * pow2 815" by (simp add: pow2_def)
  also have "\<dots> = pow2 823" unfolding pow2_add[symmetric] by simp
  finally have fb: "\<bar>of_int f :: rat\<bar> \<le> pow2 823" .
  have t: "mag_le 823 t" using assms(2) by (rule mag_le_mono) simp
  obtain b where "make_breakdown base t f = Inr b"
    using make_breakdown_returns[OF assms(1) t f1 fb] by blast
  then show ?thesis by (simp add: price_breakdown_def bnd_def r)
qed

lemma fle_380_pow2: "fle (Fin 380) t \<Longrightarrow> fle (Fin (pow2 (- 200))) t"
proof -
  have "pow2 (- 200) \<le> pow2 0" by (simp add: pow2_le_iff)
  then have "fle (Fin (pow2 (- 200))) (Fin 380)" by (simp add: fle_Fin pow2_def)
  then show "fle (Fin 380) t \<Longrightarrow> fle (Fin (pow2 (- 200))) t" by (rule fle_trans)
qed

lemma hashable_fieldsD:
  "hashable_fields cats d \<Longrightarrow> (field, name) \<in> set cats \<Longrightarrow> map_of d field = Some v \<Longrightarrow> hashable v"
  by (fastforce simp: hashable_fields_def list_all_iff)

lemma supplement_returns:
  assumes v: "validate_supplement_inputs d = Inr True"
    and h: "hashable_fields supplement_categorical d"
    and p: "py_float (dict_get d ''purchasePrice'' (JInt 0)) = Inr p" "mag_le 400 p"
    and fx: "py_float (dict_get d ''fxRate'' (JInt 50)) = Inr fx" "mag_le 400 fx"
    and wg: "py_float (dict_get d ''weightGrams'' (JInt 0)) = Inr wg" "mag_le 400 wg"
  shows "\<exists>b. calculate_supplement_price d = Inr b"
proof -
  note v' = v[unfolded validate_supplement_inputs_def]
  have np: "nonneg p" using validated_get[OF v', of "''purchasePrice''" "JInt 0"] p(1) by auto
  have nfx: "nonneg fx" using validated_get[OF v', of "''fxRate''" "JInt 50"] fx(1) by auto
  have nwg: "nonneg wg" using validated_get[OF v', of "''weightGrams''" "JInt 0"] wg(1) by auto
  obtain c where c: "py_float (dict_get d ''count'' (JInt 0)) = Inr c" "nonneg c"
    using validated_get[OF v', of "''count''"] by auto
  obtain dd where dd: "py_float (dict_get d ''dailyDose'' (JInt 1)) = Inr dd"
    using validated_get[OF v', of "''dailyDose''"] by auto
  note hh = hashable_fieldsD[OF h]
  obtain a1 where a1: "multiplier ''productShape'' (map_of d ''productShape'') = Inr a1" "nonneg a1" "mag_le 1 a1"
    using multiplier_ok[of "''productShape''" "map_of d ''productShape''"] hh[of "''productShape''" "''productShape''"]
    by (auto simp: supplement_categorical_def MULTIPLIERS_def)
  obtain a2 where a2: "multiplier ''packingMaterial'' (map_of d ''packingMaterial'') = Inr a2" "nonneg a2" "mag_le 1 a2"
    using multiplier_ok[of "''packingMaterial''" "map_of d ''packingMaterial''"] hh[of "''packingMaterial''" "''packingMaterial''"]
    by (auto simp: supplement_categorical_def MULTIPLIERS_def)
  obtain a3 where a3: "multiplier ''bottleSize'' (map_of d ''bottleSize'') = Inr a3" "nonneg a3" "mag_le 1 a3"
    using multiplier_ok[of "''bottleSize''" "map_of d ''bottleSize''"] hh[of "''bottleSize''" "''bottleSize''"]
    by (auto simp: supplement_categorical_def MULTIPLIERS_def)
  obtain a4 where a4: "multiplier ''maleSupport'' (map_of d ''isMaleSupport'') = Inr a4" "nonneg a4" "mag_le 1 a4"
    using multiplier_ok[of "''maleSupport''" "map_of d ''isMaleSupport''"] hh[of "''isMaleSupport''" "''maleSupport''"]
    by (auto simp: supplement_categorical_def MULTIPLIERS_def)
  obtain a5 where a5: "multiplier ''importOrigin'' (map_of d ''importFrom'') = Inr a5" "nonneg a5" "mag_le 1 a5"
    using multiplier_ok[of "''importOrigin''" "map_of d ''importFrom''"] hh[of "''importFrom''" "''importOrigin''"]
    by (auto simp: supplement_categorical_def MULTIPLIERS_def)
  define xf where "xf = fmul (fmul (fmul (fmul a1 a2) a3) a4) a5"
  have xf: "nonneg xf" "mag_le 5 xf"
    unfolding xf_def
    using xfactor_ok[OF a1(2,3) a2(2,3) a3(2,3) a4(2,3) a5(2,3)] by blast+
  obtain t where t: "supplement_total_cost p fx wg c dd xf = Inr t" "mag_le 814 t"
    using supplement_total_cost_bounded[OF p(2) fx(2) wg(2) xf(2) c(2)] by blast
  have "t = NaN \<or> fle (Fin 380) t"
    using supplement_total_cost_ge[OF np nfx nwg c(2) xf(1), of dd] t(1) by auto
  then have t380: "fle (Fin 380) t" using t(2) by (auto simp: mag_le_def)
  have sc: "supplement_costs d = Inr (fmul p fx, t)"
    by (simp add: supplement_costs_def bnd_Inr[OF p(1)] bnd_Inr[OF fx(1)] bnd_Inr[OF wg(1)]
          bnd_Inr[OF c(1)] bnd_Inr[OF dd] bnd_Inr[OF a1(1)] bnd_Inr[OF a2(1)] bnd_Inr[OF a3(1)]
          bnd_Inr[OF a4(1)] bnd_Inr[OF a5(1)] Let_def xf_def[symmetric] bnd_Inr[OF t(1)])
  have base: "mag_le 800 (fmul p fx)" using mag_le_fmul[OF p(2) fx(2)] by simp
  obtain b where "price_breakdown (37 / 100) (fmul p fx) t = Inr b"
    using price_breakdown_bounded[OF base t(2) fle_380_pow2[OF t380] margin_37] by auto
  then have "calculate_supplement_price d = Inr b"
    by (simp add: calculate_supplement_price_def sc bnd_def)
  then show ?thesis by blast
qed

lemma fle_1_lit: "1 \<le> x \<Longrightarrow> fle (Fin 1) (lit x)"
  unfolding lit_def by (rule rnd_ge[OF _ rnd_1])

lemma fle_1_1: "fle (Fin 1) (Fin 1)"
  by (simp add: fle_Fin)

lemma device_multiplier_ok:
  assumes "name = ''maleSupport'' \<or> name = ''importOrigin''" "\<And>v. key = Some v \<Longrightarrow> hashable v"
  shows "\<exists>m. multiplier name key = Inr m \<and> mag_le 1 m \<and> fle (Fin 1) m"
proof (cases key)
  case None
  then show ?thesis using assms(1)
    by (auto simp: multiplier_def MULTIPLIERS_def mag_le_Fin_1 fle_1_1)
next
  case (Some w)
  then have hw: "hashable w" by (rule assms(2))
  show ?thesis
  proof (cases w)
    case (JStr s)
    then show ?thesis using assms(1) Some
      by (auto simp: multiplier_def MULTIPLIERS_def mag_le_Fin_1 fle_1_1 mag_le_lit fle_1_lit)
  qed (use hw Some assms(1) in \<open>auto simp: multiplier_def MULTIPLIERS_def mag_le_Fin_1 fle_1_1\<close>)
qed

lemma fmul_lower:
  assumes "mag_le j a" "fle (Fin c) a" "mag_le k b" "fle (Fin 1) b" "0 < c" "rnd c = Fin c"
  shows "fle (Fin c) (fmul a b)"
proof -
  obtain x where x: "a = Fin x" "c \<le> x" using mag_le_fle[OF assms(1,2)] by blast
  obtain y where y: "b = Fin y" "1 \<le> y" using mag_le_fle[OF assms(3,4)] by blast
  have "0 < x" using x(2) assms(5) by linarith
  then have "x \<le> x * y" using y(2) by (simp add: mult_le_cancel_left1)
  then have "c \<le> x * y" using x(2) by linarith
  then show ?thesis using x(1) y(1) rnd_ge[OF _ assms(6)] by simp
qed

lemma fadd_lower:
  assumes "mag_le j a" "fle (Fin 1) a" "mag_le k b" "nonneg b"
  shows "fle (Fin 1) (fadd a b)"
proof -
  obtain x where x: "a = Fin x" "1 \<le> x" using mag_le_fle[OF assms(1,2)] by blast
  obtain y where y: "b = Fin y" "0 \<le> y" using assms(3,4) by (cases b) (auto simp: mag_le_def nonneg_def)
  have "1 \<le> x + y" using x(2) y(2) by linarith
  then show ?thesis using x(1) y(1) rnd_ge[OF _ rnd_1] by simp
qed

lemma device_total_cost_bounded:
  assumes b: "mag_le 200 base" "fle (Fin (pow2 (- 200))) base"
    and l: "mag_le 100 l" "nonneg l" and w: "mag_le 100 w" "nonneg w"
    and h: "mag_le 100 h" "nonneg h" and wt: "mag_le 100 wt" "nonneg wt"
    and m1: "mag_le 1 m1" "fle (Fin 1) m1" and m2: "mag_le 1 m2" "fle (Fin 1) m2"
  shows "\<exists>t. device_total_cost base l w h wt m1 m2 = Inr t \<and> mag_le 814 t
            \<and> fle (Fin (pow2 (- 200))) t"
proof -
  have "mag_le 200 (fmul l w)" using mag_le_fmul[OF l(1) w(1)] by simp
  then have vol: "mag_le 300 (fmul (fmul l w) h)" using mag_le_fmul[OF _ h(1), of 200] by simp
  have nvol: "nonneg (fmul (fmul l w) h)" using l(2) w(2) h(2) by (intro nonneg_fmul)
  obtain vq where vq: "fdiv (fmul (fmul l w) h) (Fin 4000) = Inr vq" "mag_le 300 vq"
    using mag_le_fdiv[OF vol, of 4000] by auto
  have nvq: "nonneg vq" using fdiv_pos[OF nvol, of 4000] vq(1) by auto
  have one: "mag_le 300 (Fin 1)" by (rule mag_le_mono[OF mag_le_Fin_1]) simp
  have d1: "mag_le 301 (fadd (Fin 1) vq)" using mag_le_fadd[OF one vq(2)] by simp
  have d1lo: "fle (Fin 1) (fadd (Fin 1) vq)" by (rule fadd_lower[OF one fle_1_1 vq(2) nvq])
  have "mag_le 1 (Fin 2)" by (simp add: mag_le_Fin pow2_def)
  then have "mag_le 101 (fmul wt (Fin 2))" using mag_le_fmul[OF wt(1), of 1] by simp
  then have w2: "mag_le 301 (fmul wt (Fin 2))" by (rule mag_le_mono) simp
  have nw2: "nonneg (fmul wt (Fin 2))" using wt(2) by (intro nonneg_fmul) (simp_all add: nonneg_def)
  define dim where "dim = fadd (fadd (Fin 1) vq) (fmul wt (Fin 2))"
  have dim: "mag_le 302 dim" unfolding dim_def using mag_le_fadd[OF d1 w2] by simp
  have dimlo: "fle (Fin 1) dim" unfolding dim_def by (rule fadd_lower[OF d1 d1lo w2 nw2])
  have p200: "rnd (pow2 (- 200)) = Fin (pow2 (- 200))" by (rule rnd_pow2) simp_all
  have pp: "0 < pow2 (- 200)" by (rule pow2_pos)
  have t1: "mag_le 502 (fmul base dim)" using mag_le_fmul[OF b(1) dim] by simp
  have t1lo: "fle (Fin (pow2 (- 200))) (fmul base dim)" by (rule fmul_lower[OF b dim dimlo pp p200])
  have t2: "mag_le 503 (fmul (fmul base dim) m1)" using mag_le_fmul[OF t1 m1(1)] by simp
  have t2lo: "fle (Fin (pow2 (- 200))) (fmul (fmul base dim) m1)"
    by (rule fmul_lower[OF t1 t1lo m1 pp p200])
  have t3: "mag_le 504 (fmul (fmul (fmul base dim) m1) m2)" using mag_le_fmul[OF t2 m2(1)] by simp
  have t3lo: "fle (Fin (pow2 (- 200))) (fmul (fmul (fmul base dim) m1) m2)"
    by (rule fmul_lower[OF t2 t2lo m2 pp p200])
  have "mag_le 814 (fmul (fmul (fmul base dim) m1) m2)" using t3 by (rule mag_le_mono) simp
  then show ?thesis using t3lo vq(1)
    by (simp add: device_total_cost_def bnd_def Let_def dim_def)
qed

lemma device_returns:
  assumes v: "validate_device_inputs d = Inr True"
    and hf: "hashable_fields device_categorical d"
    and p: "py_float (dict_get d ''purchasePrice'' (JInt 0)) = Inr p" "mag_le 100 p"
           "fle (Fin (pow2 (- 100))) p"
    and fx: "py_float (dict_get d ''fxRate'' (JInt 50)) = Inr fx" "mag_le 100 fx"
           "fle (Fin (pow2 (- 100))) fx"
    and l: "py_float (dict_get d ''lengthCm'' (JInt 0)) = Inr l" "mag_le 100 l"
    and w: "py_float (dict_get d ''widthCm'' (JInt 0)) = Inr w" "mag_le 100 w"
    and h: "py_float (dict_get d ''heightCm'' (JInt 0)) = Inr h" "mag_le 100 h"
    and wt: "py_float (dict_get d ''weightKg'' (JInt 0)) = Inr wt" "mag_le 100 wt"
  shows "\<exists>b. calculate_device_price d = Inr b"
proof -
  note v' = v[unfolded validate_device_inputs_def]
  have nl: "nonneg l" using validated_get[OF v', of "''lengthCm''" "JInt 0"] l(1) by auto
  have nw: "nonneg w" using validated_get[OF v', of "''widthCm''" "JInt 0"] w(1) by auto
  have nh: "nonneg h" using validated_get[OF v', of "''heightCm''" "JInt 0"] h(1) by auto
  have nwt: "nonneg wt" using validated_get[OF v', of "''weightKg''" "JInt 0"] wt(1) by auto
  note hh = hashable_fieldsD[OF hf]
  obtain m1 where m1: "multiplier ''maleSupport'' (map_of d ''isMaleSupport'') = Inr m1"
    "mag_le 1 m1" "fle (Fin 1) m1"
    using device_multiplier_ok[of "''maleSupport''" "map_of d ''isMaleSupport''"]
      hh[of "''isMaleSupport''" "''maleSupport''"]
    by (auto simp: device_categorical_def)
  obtain m2 where m2: "multiplier ''importOrigin'' (map_of d ''importFrom'') = Inr m2"
    "mag_le 1 m2" "fle (Fin 1) m2"
    using device_multiplier_ok[of "''importOrigin''" "map_of d ''importFrom''"]
      hh[of "''importFrom''" "''importOrigin''"]
    by (auto simp: device_categorical_def)
  obtain x where x: "p = Fin x" "pow2 (- 100) \<le> x" using mag_le_fle[OF p(2,3)] by blast
  obtain y where y: "fx = Fin y" "pow2 (- 100) \<le> y" using mag_le_fle[OF fx(2,3)] by blast
  have base: "mag_le 200 (fmul p fx)" using mag_le_fmul[OF p(2) fx(2)] by simp
  have "pow2 (- 100) * pow2 (- 100) \<le> x * y"
    using x(2) y(2) pow2_pos[of "- 100"] by (intro mult_mono) simp_all
  then have "pow2 (- 200) \<le> x * y" unfolding pow2_add[symmetric] by simp
  then have "fle (Fin (pow2 (- 200))) (rnd (x * y))" by (intro rnd_ge rnd_pow2) simp_all
  then have baselo: "fle (Fin (pow2 (- 200))) (fmul p fx)" by (simp add: x(1) y(1))
  obtain t where t: "device_total_cost (fmul p fx) l w h wt m1 m2 = Inr t" "mag_le 814 t"
    "fle (Fin (pow2 (- 200))) t"
    using device_total_cost_bounded[OF base baselo l(2) nl w(2) nw h(2) nh wt(2) nwt m1(2,3) m2(2,3)]
    by blast
  have dc: "device_costs d = Inr (fmul p fx, t)"
    by (simp add: device_costs_def bnd_Inr[OF p(1)] bnd_Inr[OF fx(1)] bnd_Inr[OF l(1)]
          bnd_Inr[OF w(1)] bnd_Inr[OF h(1)] bnd_Inr[OF wt(1)] bnd_Inr[OF m1(1)] bnd_Inr[OF m2(1)]
          Let_def bnd_Inr[OF t(1)])
  have base800: "mag_le 800 (fmul p fx)" using base by (rule mag_le_mono) simp
  obtain b where "price_breakdown (15 / 100) (fmul p fx) t = Inr b"
    using price_breakdown_bounded[OF base800 t(2,3) margin_15] by auto
  then have "calculate_device_price d = Inr b"
    by (simp add: calculate_device_price_def dc bnd_def)
  then show ?thesis by blast
qed

text \<open>
  C1, amended: both formulas return a breakdown on a validated input whose categorical
  values are hashable and whose numeric fields are finite and bounded. For the supplement
  formula the purchase price, the exchange rate and the weight are at most \<open>2 ^ 400\<close>
  (the count and the daily dose are not restricted: the guard covers a daily dose of 0).
  For the device formula the six numeric fields are at most \<open>2 ^ 100\<close> and the
  purchase price and the exchange rate are at least \<open>2 ^ - 100\<close>, so that the total
  cost is not 0.
\<close>

theorem validated_bounded_inputs_return:
  "(validate_supplement_inputs s = Inr True
      \<and> hashable_fields supplement_categorical s
      \<and> py_float (dict_get s ''purchasePrice'' (JInt 0)) = Inr sp \<and> mag_le 400 sp
      \<and> py_float (dict_get s ''fxRate'' (JInt 50)) = Inr sfx \<and> mag_le 400 sfx
      \<and> py_float (dict_get s ''weightGrams'' (JInt 0)) = Inr swg \<and> mag_le 400 swg
    \<longrightarrow> (\<exists>b. calculate_supplement_price s = Inr b))
   \<and> (validate_device_inputs d = Inr True
      \<and> hashable_fields device_categorical d
      \<and> py_float (dict_get d ''purchasePrice'' (JInt 0)) = Inr p \<and> mag_le 100 p
      \<and> fle (Fin (pow2 (- 100))) p
      \<and> py_float (dict_get d ''fxRate'' (JInt 50)) = Inr fx \<and> mag_le 100 fx
      \<and> fle (Fin (pow2 (- 100))) fx
      \<and> py_float (dict_get d ''lengthCm'' (JInt 0)) = Inr l \<and> mag_le 100 l
      \<and> py_float (dict_get d ''widthCm'' (JInt 0)) = Inr w \<and> mag_le 100 w
      \<and> py_float (dict_get d ''heightCm'' (JInt 0)) = Inr h \<and> mag_le 100 h
      \<and> py_float (dict_get d ''weightKg'' (JInt 0)) = Inr wt \<and> mag_le 100 wt
    \<longrightarrow> (\<exists>b. calculate_device_price d = Inr b))"
  using supplement_returns[of s sp sfx swg] device_returns[of d p fx l w h wt] by blast

theorem validated_bounded_inputs_return_witness:
  "validate_supplement_inputs supplement_example = Inr True
   \<and> hashable_fields supplement_categorical supplement_example
   \<and> py_float (dict_get supplement_example ''purchasePrice'' (JInt 0)) = Inr (Fin 10)
   \<and> mag_le 400 (Fin 10)
   \<and> py_float (dict_get supplement_example ''fxRate'' (JInt 50)) = Inr (Fin 50)
   \<and> mag_le 400 (Fin 50)
   \<and> py_float (dict_get supplement_example ''weightGrams'' (JInt 0)) = Inr (Fin 30)
   \<and> mag_le 400 (Fin 30)
   \<and> (\<exists>b. calculate_supplement_price supplement_example = Inr b)
   \<and> validate_device_inputs device_example = Inr True
   \<and> hashable_fields device_categorical device_example
   \<and> py_float (dict_get device_example ''purchasePrice'' (JInt 0)) = Inr (Fin 100)
   \<and> mag_le 100 (Fin 100) \<and> fle (Fin (pow2 (- 100))) (Fin 100)
   \<and> py_float (dict_get device_example ''fxRate'' (JInt 50)) = Inr (Fin 50)
   \<and> mag_le 100 (Fin 50) \<and> fle (Fin (pow2 (- 100))) (Fin 50)
   \<and> py_float (dict_get device_example ''lengthCm'' (JInt 0)) = Inr (Fin 20)
   \<and> py_float (dict_get device_example ''widthCm'' (JInt 0)) = Inr (Fin 20)
   \<and> py_float (dict_get device_example ''heightCm'' (JInt 0)) = Inr (Fin 20)
   \<and> mag_le 100 (Fin 20)
   \<and> py_float (dict_get device_example ''weightKg'' (JInt 0)) = Inr (Fin 5)
   \<and> mag_le 100 (Fin 5)
   \<and> (\<exists>b. calculate_device_price device_example = Inr b)"
proof -
  have sf: "py_float (dict_get supplement_example ''purchasePrice'' (JInt 0)) = Inr (Fin 10)"
    "py_float (dict_get supplement_example ''fxRate'' (JInt 50)) = Inr (Fin 50)"
    "py_float (dict_get supplement_example ''weightGrams'' (JInt 0)) = Inr (Fin 30)"
    by (simp_all add: supplement_example_def dict_get_def float_of_int_def rnd_numeral)
  have df: "py_float (dict_get device_example ''purchasePrice'' (JInt 0)) = Inr (Fin 100)"
    "py_float (dict_get device_example ''fxRate'' (JInt 50)) = Inr (Fin 50)"
    "py_float (dict_get device_example ''lengthCm'' (JInt 0)) = Inr (Fin 20)"
    "py_float (dict_get device_example ''widthCm'' (JInt 0)) = Inr (Fin 20)"
    "py_float (dict_get device_example ''heightCm'' (JInt 0)) = Inr (Fin 20)"
    "py_float (dict_get device_example ''weightKg'' (JInt 0)) = Inr (Fin 5)"
    by (simp_all add: device_example_def dict_get_def float_of_int_def rnd_numeral)
  have m: "mag_le 400 (Fin 10)" "mag_le 400 (Fin 50)" "mag_le 400 (Fin 30)"
    "mag_le 100 (Fin 100)" "mag_le 100 (Fin 50)" "mag_le 100 (Fin 20)" "mag_le 100 (Fin 5)"
    by (simp_all add: mag_le_Fin pow2_def)
  have lo: "fle (Fin (pow2 (- 100))) (Fin 100)" "fle (Fin (pow2 (- 100))) (Fin 50)"
    by (simp_all add: fle_Fin pow2_def)
  have hs: "hashable_fields supplement_categorical supplement_example"
    by (simp add: hashable_fields_def supplement_categorical_def supplement_example_def)
  have hd: "hashable_fields device_categorical device_example"
    by (simp add: hashable_fields_def device_categorical_def device_example_def)
  show ?thesis
    using validated_bounded_inputs_return[of supplement_example "Fin 10" "Fin 50" "Fin 30"
        device_example "Fin 100" "Fin 50" "Fin 20" "Fin 20" "Fin 20" "Fin 5"]
      supplement_example_validated device_example_validated sf df m lo hs hd
    by simp
qed

text \<open>
  C1, as stated, fails on a NaN: the string \<^verbatim>\<open>nan\<close> passes the device validator
  (\<^verbatim>\<open>nan < 0\<close> is false), the total cost is a NaN and \<^verbatim>\<open>math.ceil\<close> raises
  ValueError.
\<close>

theorem nan_weight_raises:
  "validate_device_inputs nan_device = Inr True
   \<and> calculate_device_price nan_device
       = Inl (ValueError ''cannot convert float NaN to integer'')"
  by (simp add: nan_device_def device_example_def validate_device_inputs_def
        float_of_string_nan float_of_int_def rnd_numeral rnd_1 rnd_0
        calculate_device_price_def device_costs_def multiplier_def MULTIPLIERS_def dict_get_def
        bnd_def device_total_cost_def lit_def Let_def
        price_breakdown_def final_price_raw_def round_up_50_def)

section \<open>A daily dose of zero\<close>

lemma supplement_no_zero_division:
  assumes "validate_supplement_inputs d = Inr True"
  shows "calculate_supplement_price d \<noteq> Inl (ZeroDivisionError m)"
proof -
  from supplement_costs_cases[OF assms]
  consider e where "supplement_costs d = Inl e" "\<forall>m. e \<noteq> ZeroDivisionError m"
    | base t where "supplement_costs d = Inr (base, t)" "t = NaN \<or> fle (Fin 380) t"
    by blast
  then show ?thesis
  proof cases
    case 1
    then show ?thesis by (simp add: calculate_supplement_price_def bnd_def)
  next
    case 2
    then show ?thesis using price_breakdown_37[OF 2(2), of base]
      by (simp add: calculate_supplement_price_def bnd_def)
  qed
qed

text \<open>
  C4, amended: for every validated supplement input whose daily dose is exactly 0 the
  guard triggers: the days of supply are the fallback 30 and the months of supply 1,
  \<^verbatim>\<open>count / dailyDose\<close> is not computed, and the formula raises no ZeroDivisionError.
  It returns a breakdown when, in addition, the purchase price, the exchange rate and the
  weight are finite and at most \<open>2 ^ 400\<close> and the categorical values are hashable.
\<close>

theorem zero_daily_dose_is_guarded:
  assumes v: "validate_supplement_inputs d = Inr True"
    and dd: "py_float (dict_get d ''dailyDose'' (JInt 1)) = Inr (Fin 0)"
  shows "(\<exists>c. py_float (dict_get d ''count'' (JInt 0)) = Inr c
            \<and> days_supply c (Fin 0) = Inr (Fin 30) \<and> months_supply c (Fin 0) = Inr (Fin 1))
       \<and> (\<forall>m. calculate_supplement_price d \<noteq> Inl (ZeroDivisionError m))
       \<and> (hashable_fields supplement_categorical d
          \<and> py_float (dict_get d ''purchasePrice'' (JInt 0)) = Inr p \<and> mag_le 400 p
          \<and> py_float (dict_get d ''fxRate'' (JInt 50)) = Inr fx \<and> mag_le 400 fx
          \<and> py_float (dict_get d ''weightGrams'' (JInt 0)) = Inr wg \<and> mag_le 400 wg
          \<longrightarrow> (\<exists>b. calculate_supplement_price d = Inr b))"
proof -
  note v' = v[unfolded validate_supplement_inputs_def]
  obtain c where c: "py_float (dict_get d ''count'' (JInt 0)) = Inr c"
    using validated_get[OF v', of "''count''" "JInt 0"] by auto
  have g: "\<exists>c. py_float (dict_get d ''count'' (JInt 0)) = Inr c
            \<and> days_supply c (Fin 0) = Inr (Fin 30) \<and> months_supply c (Fin 0) = Inr (Fin 1)"
    using c by (simp add: zero_dose_guard)
  have z: "\<forall>m. calculate_supplement_price d \<noteq> Inl (ZeroDivisionError m)"
    using supplement_no_zero_division[OF v] by blast
  show ?thesis using g z supplement_returns[OF v, of p fx wg] by blast
qed

theorem zero_daily_dose_is_guarded_witness:
  "validate_supplement_inputs zero_dose_supplement = Inr True
   \<and> py_float (dict_get zero_dose_supplement ''dailyDose'' (JInt 1)) = Inr (Fin 0)
   \<and> py_float (dict_get zero_dose_supplement ''count'' (JInt 0)) = Inr (Fin 60)
   \<and> days_supply (Fin 60) (Fin 0) = Inr (Fin 30) \<and> months_supply (Fin 60) (Fin 0) = Inr (Fin 1)
   \<and> calculate_supplement_price zero_dose_supplement
       \<noteq> Inl (ZeroDivisionError ''float division by zero'')
   \<and> hashable_fields supplement_categorical zero_dose_supplement
   \<and> py_float (dict_get zero_dose_supplement ''purchasePrice'' (JInt 0)) = Inr (Fin 10)
   \<and> mag_le 400 (Fin 10)
   \<and> py_float (dict_get zero_dose_supplement ''fxRate'' (JInt 50)) = Inr (Fin 50)
   \<and> mag_le 400 (Fin 50)
   \<and> py_float (dict_get zero_dose_supplement ''weightGrams'' (JInt 0)) = Inr (Fin 30)
   \<and> mag_le 400 (Fin 30)
   \<and> (\<exists>b. calculate_supplement_price zero_dose_supplement = Inr b)"
proof -
  have v: "validate_supplement_inputs zero_dose_supplement = Inr True"
    by (simp add: validate_supplement_inputs_def zero_dose_supplement_def supplement_example_def
          float_of_int_def rnd_numeral rnd_0)
  have f: "py_float (dict_get zero_dose_supplement ''dailyDose'' (JInt 1)) = Inr (Fin 0)"
    "py_float (dict_get zero_dose_supplement ''purchasePrice'' (JInt 0)) = Inr (Fin 10)"
    "py_float (dict_get zero_dose_supplement ''fxRate'' (JInt 50)) = Inr (Fin 50)"
    "py_float (dict_get zero_dose_supplement ''weightGrams'' (JInt 0)) = Inr (Fin 30)"
    "py_float (dict_get zero_dose_supplement ''count'' (JInt 0)) = Inr (Fin 60)"
    by (simp_all add: zero_dose_supplement_def supplement_example_def dict_get_def float_of_int_def
          rnd_numeral rnd_0)
  have m: "mag_le 400 (Fin 10)" "mag_le 400 (Fin 50)" "mag_le 400 (Fin 30)"
    by (simp_all add: mag_le_Fin pow2_def)
  have h: "hashable_fields supplement_categorical zero_dose_supplement"
    by (simp add: hashable_fields_def supplement_categorical_def zero_dose_supplement_def
          supplement_example_def)
  show ?thesis
    using zero_daily_dose_is_guarded[OF v f(1), of "Fin 10" "Fin 50" "Fin 30"] v f m h
    by simp
qed

text \<open>
  C4, as stated, fails on an infinite price: the string \<^verbatim>\<open>inf\<close> passes the validator,
  the daily dose is 0, and \<^verbatim>\<open>math.ceil\<close> raises OverflowError on the infinite price.
\<close>

theorem infinite_price_raises:
  "validate_supplement_inputs inf_supplement = Inr True
   \<and> py_float (dict_get inf_supplement ''dailyDose'' (JInt 1)) = Inr (Fin 0)
   \<and> calculate_supplement_price inf_supplement
       = Inl (OverflowError ''cannot convert float infinity to integer'')"
  by (simp add: inf_supplement_def supplement_example_def validate_supplement_inputs_def
        float_of_string_inf float_of_int_def rnd_numeral rnd_1 rnd_0
        calculate_supplement_price_def supplement_costs_def multiplier_def MULTIPLIERS_def dict_get_def
        bnd_def supplement_total_cost_def zero_dose_guard inf_of_sign_def
        lit_def supp_s1 supp_s5 supp_s6 Let_def
        price_breakdown_def final_price_raw_def round_up_50_def)

end
